theory Spec2Isabelle
  imports Main "HOL-Library.Sublist" "HOL-Library.Monad_Syntax"
begin

section \<open>IR data model (include/ir.h)\<close>

text \<open>
  The kinds of \<^verbatim>\<open>enum class TypeKind\<close>. The header under \<^verbatim>\<open>include/ir.h\<close> lists the
  first twelve; the container and threading kinds are the ones the analyzers and mappers
  name (\<^verbatim>\<open>TypeKind::StdVector\<close>, \<^verbatim>\<open>TypeKind::StdMutex\<close>, ...).
\<close>

datatype TypeKind =
    Void | Bool | Integer | Float | Pointer | Reference | Array | Struct | Class | Enum
  | Function | Template
  | StdVector | StdList | StdDeque | StdMap | StdUnorderedMap | StdSet | StdUnorderedSet
  | StdString | StdPair | StdOptional
  | StdThread | StdMutex | StdRecursiveMutex | StdSharedMutex | StdConditionVariable
  | StdAtomic | StdLockGuard | StdUniqueLock | StdSharedLock

text \<open>
  \<^verbatim>\<open>class Type\<close>. A \<^verbatim>\<open>std::shared_ptr<Type>\<close> is a \<open>Type option\<close>, \<open>None\<close> being
  the null pointer. The two \<^verbatim>\<open>size_t\<close> members are natural numbers: the operations below
  store table constants in them and do no arithmetic on them.
\<close>

datatype Type = Type
  (kind: TypeKind)
  (name: string)
  (is_const: bool)
  (is_mutable: bool)
  (element_type: "Type option")
  (template_args: "Type list")
  (size_bytes: nat)
  (alignment: nat)

text \<open>\<^verbatim>\<open>explicit Type(TypeKind k)\<close> with the default member initialisers.\<close>

definition new_Type :: "TypeKind \<Rightarrow> Type" where
  "new_Type k = Type k [] False True None [] 0 0"

definition set_name :: "string \<Rightarrow> Type \<Rightarrow> Type" where
  "set_name n t = Type (kind t) n (is_const t) (is_mutable t) (element_type t)
     (template_args t) (size_bytes t) (alignment t)"

definition set_size_bytes :: "nat \<Rightarrow> Type \<Rightarrow> Type" where
  "set_size_bytes n t = Type (kind t) (name t) (is_const t) (is_mutable t) (element_type t)
     (template_args t) n (alignment t)"

definition set_alignment :: "nat \<Rightarrow> Type \<Rightarrow> Type" where
  "set_alignment n t = Type (kind t) (name t) (is_const t) (is_mutable t) (element_type t)
     (template_args t) (size_bytes t) n"

text \<open>
  \<^verbatim>\<open>class Variable\<close> and \<^verbatim>\<open>class Parameter\<close>. Several classes have members called
  \<^verbatim>\<open>name\<close>, \<^verbatim>\<open>type\<close>, \<^verbatim>\<open>is_const\<close> or \<^verbatim>\<open>is_static\<close>; outside \<open>Type\<close> these carry the class as
  a prefix (\<open>var_name\<close>, \<open>fn_name\<close>, \<open>class_name\<close>, ...), and \<^verbatim>\<open>ClassDecl::fields\<close> is
  \<open>class_fields\<close>.
\<close>

record Variable =
  var_name :: string
  var_type :: "Type option"
  var_is_static :: bool
  var_is_const :: bool
  initializer :: string

record Parameter =
  param_name :: string
  param_type :: "Type option"
  has_default :: bool
  default_value :: string

text \<open>
  The annotation records the analyzers fill in. \<^verbatim>\<open>include/ir.h\<close> does not declare them;
  the fields are the ones the analyzers read and write.
\<close>

record ThreadInfo =
  thread_var_name :: string
  function_name :: string
  arguments :: "string list"
  detached :: bool
  joinable :: bool

record CatchClause =
  exception_type :: string
  exception_var :: string
  handler_body :: string

record TryCatchBlock =
  try_body :: string
  catch_clauses :: "CatchClause list"

record ExceptionSpec =
  is_noexcept :: bool
  can_throw :: bool

datatype MutexType = Mutex | RecursiveMutex | SharedMutex

record MutexInfo =
  mutex_type :: MutexType
  mutex_var_name :: string

record AtomicInfo =
  atomic_var_name :: string
  value_type :: "Type option"
  operations :: "string list"

text \<open>
  \<^verbatim>\<open>class Function\<close>, with the annotations that the parts of the thread and exception
  analyzers modelled below write: the recorded threads, the try/catch blocks, the exception
  specification and the \<open>may_throw\<close> flag.
\<close>

record Function =
  fn_name :: string
  return_type :: "Type option"
  parameters :: "Parameter list"
  body :: string
  fn_is_const :: bool
  fn_is_static :: bool
  is_virtual :: bool
  is_pure_virtual :: bool
  is_constructor :: bool
  is_destructor :: bool
  moved_params :: "string list"
  borrowed_params :: "string list"
  threads_created :: "ThreadInfo list"
  try_catch_blocks :: "TryCatchBlock list"
  exception_spec :: ExceptionSpec
  may_throw :: bool

datatype Level = Public | Protected | Private

record AccessSection =
  level :: Level
  members :: "string list"

text \<open>\<^verbatim>\<open>class ClassDecl\<close>, with the synchronisation inventory of the thread analyzer.\<close>

record ClassDecl =
  class_name :: string
  is_struct :: bool
  class_fields :: "Variable list"
  methods :: "Function list"
  base_classes :: "string list"
  is_template :: bool
  template_params :: "string list"
  access_sections :: "AccessSection list"
  mutexes :: "MutexInfo list"
  atomic_fields :: "AtomicInfo list"
  thread_safe :: bool

section \<open>The IR container (src/ir/ir_builder.cpp)\<close>

text \<open>
  \<^verbatim>\<open>class IR\<close>: three vectors and the \<^verbatim>\<open>std::map\<close> from names to type pointers
  (the members \<^verbatim>\<open>classes_\<close>, \<^verbatim>\<open>functions_\<close>, \<^verbatim>\<open>global_vars_\<close>, \<^verbatim>\<open>type_registry_\<close>).
  A registry entry may hold a null pointer, so the map's values are \<open>Type option\<close>.
\<close>

record IR =
  classes :: "ClassDecl list"
  free_functions :: "Function list"
  global_vars :: "Variable list"
  type_registry :: "string \<rightharpoonup> Type option"

definition new_IR :: IR where
  "new_IR = \<lparr>classes = [], free_functions = [], global_vars = [], type_registry = Map.empty\<rparr>"

definition registerType :: "string \<Rightarrow> Type option \<Rightarrow> IR \<Rightarrow> IR" where
  "registerType n t ir = ir\<lparr>type_registry := (type_registry ir)(n \<mapsto> t)\<rparr>"

definition findType :: "IR \<Rightarrow> string \<Rightarrow> Type option" where
  "findType ir n = (case type_registry ir n of Some p \<Rightarrow> p | None \<Rightarrow> None)"

definition addClass :: "ClassDecl \<Rightarrow> IR \<Rightarrow> IR" where
  "addClass class_decl ir =
     registerType (class_name class_decl) (Some (set_name (class_name class_decl) (new_Type Class)))
       (ir\<lparr>classes := classes ir @ [class_decl]\<rparr>)"

definition addFunction :: "Function \<Rightarrow> IR \<Rightarrow> IR" where
  "addFunction func ir = ir\<lparr>free_functions := free_functions ir @ [func]\<rparr>"

definition addGlobalVariable :: "Variable \<Rightarrow> IR \<Rightarrow> IR" where
  "addGlobalVariable var ir = ir\<lparr>global_vars := global_vars ir @ [var]\<rparr>"

text \<open>
  The registry invariant: every class in \<open>classes\<close> has a registry entry under its name
  that holds a class-kind type of that name.
\<close>

definition registry_inv :: "IR \<Rightarrow> bool" where
  "registry_inv ir =
     (\<forall>c \<in> set (classes ir).
        \<exists>t. findType ir (class_name c) = Some t \<and> name t = class_name c \<and> kind t = Class)"

section \<open>TypeMapper\<close>

text \<open>The two static tables of \<^verbatim>\<open>TypeMapper\<close>, in the order of the source.\<close>

definition builtin_map :: "(string \<times> TypeKind) list" where
  "builtin_map =
    [(''void'', Void), (''bool'', Bool), (''char'', Integer), (''short'', Integer),
     (''int'', Integer), (''long'', Integer), (''long long'', Integer),
     (''unsigned char'', Integer), (''unsigned short'', Integer), (''unsigned int'', Integer),
     (''unsigned long'', Integer), (''unsigned long long'', Integer),
     (''int8_t'', Integer), (''int16_t'', Integer), (''int32_t'', Integer), (''int64_t'', Integer),
     (''uint8_t'', Integer), (''uint16_t'', Integer), (''uint32_t'', Integer),
     (''uint64_t'', Integer), (''size_t'', Integer), (''float'', Float), (''double'', Float)]"

definition size_map :: "(string \<times> nat) list" where
  "size_map =
    [(''void'', 0), (''bool'', 1), (''char'', 1), (''short'', 2), (''int'', 4), (''long'', 8),
     (''long long'', 8), (''unsigned char'', 1), (''unsigned short'', 2), (''unsigned int'', 4),
     (''unsigned long'', 8), (''unsigned long long'', 8),
     (''int8_t'', 1), (''int16_t'', 2), (''int32_t'', 4), (''int64_t'', 8),
     (''uint8_t'', 1), (''uint16_t'', 2), (''uint32_t'', 4), (''uint64_t'', 8),
     (''size_t'', 8), (''float'', 4), (''double'', 8)]"

definition getSizeForType :: "string \<Rightarrow> nat" where
  "getSizeForType type_name = (case map_of size_map type_name of Some n \<Rightarrow> n | None \<Rightarrow> 0)"

text \<open>\<^verbatim>\<open>TypeMapper::mapBuiltinType\<close>: \<open>None\<close> is the null pointer returned for an unknown name.\<close>

definition mapBuiltinType :: "string \<Rightarrow> Type option" where
  "mapBuiltinType cpp_type =
     (case map_of builtin_map cpp_type of
        Some k \<Rightarrow>
          (let type = set_name cpp_type (new_Type k);
               type = set_size_bytes (getSizeForType cpp_type) type;
               type = set_alignment (size_bytes type) type
           in Some type)
      | None \<Rightarrow> None)"

section \<open>MemoryPatternAnalyzer\<close>

datatype OwnershipPattern =
  UniqueOwnership | SharedOwnership | BorrowedReference | MutableBorrow | RawPointer
  | ValueSemantics

text \<open>\<^verbatim>\<open>s.find(sub) != std::string::npos\<close>: \<open>sub\<close> occurs in \<open>s\<close> as a contiguous block.\<close>

primrec contains_str :: "string \<Rightarrow> string \<Rightarrow> bool" where
  "contains_str [] sub = (sub = [])"
| "contains_str (c # cs) sub = (prefix sub (c # cs) \<or> contains_str cs sub)"

definition analyzePointerPattern :: "Type option \<Rightarrow> OwnershipPattern" where
  "analyzePointerPattern type =
     (case type of
        None \<Rightarrow> ValueSemantics
      | Some t \<Rightarrow>
          if kind t = Pointer then
            (if contains_str (name t) ''unique_ptr'' then UniqueOwnership
             else if contains_str (name t) ''shared_ptr'' then SharedOwnership
             else RawPointer)
          else if kind t = Reference then
            (if is_const t then BorrowedReference else MutableBorrow)
          else ValueSemantics)"

section \<open>Declarations for examples\<close>

text \<open>A class declaration as the default constructor leaves it, with a name.\<close>

definition named_class :: "string \<Rightarrow> ClassDecl" where
  "named_class n =
     \<lparr>class_name = n, is_struct = False, class_fields = [], methods = [], base_classes = [],
      is_template = False, template_params = [], access_sections = [], mutexes = [],
      atomic_fields = [], thread_safe = False\<rparr>"

section \<open>ThreadAnalyzer: the synchronisation inventory of a class\<close>

text \<open>
  The analyzers dereference \<^verbatim>\<open>field.type\<close> without a check; on a null pointer the program
  has no defined result, which the model returns as an error.
\<close>

datatype error = NullDereference

text \<open>
  \<^verbatim>\<open>detectMutexMembers\<close>: the loop over the fields, with the vector \<^verbatim>\<open>class_decl.mutexes\<close>
  it appends to.
\<close>

fun detectMutexMembers_loop :: "Variable list \<Rightarrow> MutexInfo list \<Rightarrow> error + MutexInfo list" where
  "detectMutexMembers_loop [] ms = Inr ms"
| "detectMutexMembers_loop (field # rest) ms =
     (case var_type field of
        None \<Rightarrow> Inl NullDereference
      | Some t \<Rightarrow>
          if kind t = StdMutex then
            detectMutexMembers_loop rest
              (ms @ [\<lparr>mutex_type = Mutex, mutex_var_name = var_name field\<rparr>])
          else if kind t = StdRecursiveMutex then
            detectMutexMembers_loop rest
              (ms @ [\<lparr>mutex_type = RecursiveMutex, mutex_var_name = var_name field\<rparr>])
          else if kind t = StdSharedMutex then
            detectMutexMembers_loop rest
              (ms @ [\<lparr>mutex_type = SharedMutex, mutex_var_name = var_name field\<rparr>])
          else detectMutexMembers_loop rest ms)"

definition detectMutexMembers :: "ClassDecl \<Rightarrow> error + ClassDecl" where
  "detectMutexMembers class_decl =
     (case detectMutexMembers_loop (class_fields class_decl) (mutexes class_decl) of
        Inl e \<Rightarrow> Inl e
      | Inr ms \<Rightarrow> Inr (class_decl\<lparr>mutexes := ms\<rparr>))"

text \<open>\<^verbatim>\<open>detectAtomicMembers\<close>; a fresh \<^verbatim>\<open>AtomicInfo\<close> has no operations.\<close>

fun detectAtomicMembers_loop :: "Variable list \<Rightarrow> AtomicInfo list \<Rightarrow> error + AtomicInfo list" where
  "detectAtomicMembers_loop [] as = Inr as"
| "detectAtomicMembers_loop (field # rest) as =
     (case var_type field of
        None \<Rightarrow> Inl NullDereference
      | Some t \<Rightarrow>
          if kind t = StdAtomic then
            detectAtomicMembers_loop rest
              (as @ [\<lparr>atomic_var_name = var_name field, value_type = element_type t,
                      operations = []\<rparr>])
          else detectAtomicMembers_loop rest as)"

definition detectAtomicMembers :: "ClassDecl \<Rightarrow> error + ClassDecl" where
  "detectAtomicMembers class_decl =
     (case detectAtomicMembers_loop (class_fields class_decl) (atomic_fields class_decl) of
        Inl e \<Rightarrow> Inl e
      | Inr as \<Rightarrow> Inr (class_decl\<lparr>atomic_fields := as\<rparr>))"

text \<open>\<^verbatim>\<open>ThreadAnalyzer::analyzeClass\<close>.\<close>

definition analyzeClass :: "ClassDecl \<Rightarrow> error + ClassDecl" where
  "analyzeClass class_decl =
     (case detectMutexMembers class_decl of
        Inl e \<Rightarrow> Inl e
      | Inr c1 \<Rightarrow>
          (case detectAtomicMembers c1 of
             Inl e \<Rightarrow> Inl e
           | Inr c2 \<Rightarrow> Inr (c2\<lparr>thread_safe := mutexes c2 \<noteq> [] \<or> atomic_fields c2 \<noteq> []\<rparr>)))"

text \<open>Fields of a recognised mutex-like kind, and fields of the atomic kind.\<close>

definition is_mutex_field :: "Variable \<Rightarrow> bool" where
  "is_mutex_field f =
     (case var_type f of
        None \<Rightarrow> False
      | Some t \<Rightarrow> kind t = StdMutex \<or> kind t = StdRecursiveMutex \<or> kind t = StdSharedMutex)"

definition is_atomic_field :: "Variable \<Rightarrow> bool" where
  "is_atomic_field f = (case var_type f of None \<Rightarrow> False | Some t \<Rightarrow> kind t = StdAtomic)"

definition typed_field :: "string \<Rightarrow> TypeKind \<Rightarrow> Variable" where
  "typed_field n k =
     \<lparr>var_name = n, var_type = Some (new_Type k), var_is_static = False, var_is_const = False,
      initializer = []\<rparr>"

text \<open>The records the two loops append for a field, by the branch that takes it.\<close>

definition mutex_info_of :: "Variable \<Rightarrow> MutexInfo" where
  "mutex_info_of f =
     \<lparr>mutex_type =
        (case var_type f of
           None \<Rightarrow> Mutex
         | Some t \<Rightarrow>
             if kind t = StdMutex then Mutex
             else if kind t = StdRecursiveMutex then RecursiveMutex else SharedMutex),
      mutex_var_name = var_name f\<rparr>"

definition atomic_info_of :: "Variable \<Rightarrow> AtomicInfo" where
  "atomic_info_of f =
     \<lparr>atomic_var_name = var_name f,
      value_type = (case var_type f of None \<Rightarrow> None | Some t \<Rightarrow> element_type t),
      operations = []\<rparr>"

text \<open>
  A class with a mutex, an atomic counter and a plain integer, as the front end hands it
  over: typed fields, empty inventories.
\<close>

definition counter_class :: ClassDecl where
  "counter_class =
     (named_class ''Counter'')\<lparr>class_fields :=
        [typed_field ''mtx'' StdMutex, typed_field ''count'' StdAtomic, typed_field ''total'' Integer]\<rparr>"

section \<open>ExceptionAnalyzer\<close>

subsection \<open>The try/catch pattern\<close>

text \<open>
  The analyzers match \<^verbatim>\<open>std::regex\<close> patterns (ECMAScript grammar) against the body text.
  Each pattern used here is a sequence of literals, greedy runs of one character class and
  captures, in which the character after a run never belongs to the run's class, so the
  backtracking matcher has one way to match at a given start, and \<^verbatim>\<open>regex_search\<close> returns
  the match at the leftmost start that has one. \<open>isspace\<close> is the class \<^verbatim>\<open>\s\<close>: space,
  tab, line feed, vertical tab, form feed, carriage return.
\<close>

definition isspace :: "char \<Rightarrow> bool" where
  "isspace c =
     (c = CHR '' '' \<or> c = CHR 0x09 \<or> c = CHR 0x0A \<or> c = CHR 0x0B \<or> c = CHR 0x0C \<or> c = CHR 0x0D)"

text \<open>A literal: the rest of the text after the literal, if the text starts with it.\<close>

definition lit :: "string \<Rightarrow> string \<Rightarrow> string option" where
  "lit p s = (if prefix p s then Some (drop (length p) s) else None)"

definition ws_star :: "string \<Rightarrow> string" where
  "ws_star s = dropWhile isspace s"

text \<open>
  \<^verbatim>\<open>try\s*\{([^}]*)\}\s*catch\s*\(([^)]+)\)\s*\{([^}]*)\}\<close> at the start of the text: the
  three captures and the text after the match (\<^verbatim>\<open>match.suffix()\<close>).
\<close>

definition match_try_catch :: "string \<Rightarrow> (string \<times> string \<times> string \<times> string) option" where
  "match_try_catch s = do {
     s1 \<leftarrow> lit ''try'' s;
     s2 \<leftarrow> lit ''{'' (ws_star s1);
     s3 \<leftarrow> lit ''}'' (dropWhile (\<lambda>c. c \<noteq> CHR ''}'') s2);
     s4 \<leftarrow> lit ''catch'' (ws_star s3);
     s5 \<leftarrow> lit ''('' (ws_star s4);
     s6 \<leftarrow> (if takeWhile (\<lambda>c. c \<noteq> CHR '')'') s5 = [] then None
            else lit '')'' (dropWhile (\<lambda>c. c \<noteq> CHR '')'') s5));
     s7 \<leftarrow> lit ''{'' (ws_star s6);
     s8 \<leftarrow> lit ''}'' (dropWhile (\<lambda>c. c \<noteq> CHR ''}'') s7);
     Some (takeWhile (\<lambda>c. c \<noteq> CHR ''}'') s2, takeWhile (\<lambda>c. c \<noteq> CHR '')'') s5,
           takeWhile (\<lambda>c. c \<noteq> CHR ''}'') s7, s8)
   }"

text \<open>\<^verbatim>\<open>std::regex_search\<close>: the match at the leftmost start.\<close>

fun search_try_catch :: "string \<Rightarrow> (string \<times> string \<times> string \<times> string) option" where
  "search_try_catch [] = match_try_catch []"
| "search_try_catch (c # cs) =
     (case match_try_catch (c # cs) of Some r \<Rightarrow> Some r | None \<Rightarrow> search_try_catch cs)"

lemma lit_length: "lit p s = Some r \<Longrightarrow> length r + length p = length s"
  by (auto simp: lit_def prefix_def split: if_splits)

lemma lit_le: "lit p s = Some r \<Longrightarrow> length r \<le> length s"
  using lit_length by fastforce

lemma ws_star_length: "length (ws_star s) \<le> length s"
  by (simp add: ws_star_def length_dropWhile_le)

lemma match_try_catch_shorter:
  assumes "match_try_catch s = Some (a, b, c, r)"
  shows "length r < length s"
proof -
  from assms obtain s1 where s1: "lit ''try'' s = Some s1"
    by (auto simp: match_try_catch_def split: bind_splits)
  from assms s1 obtain s2 s3 s4 s5 s6 s7 where
    "lit ''{'' (ws_star s1) = Some s2"
    "lit ''}'' (dropWhile (\<lambda>c. c \<noteq> CHR ''}'') s2) = Some s3"
    "lit ''catch'' (ws_star s3) = Some s4"
    "lit ''('' (ws_star s4) = Some s5"
    "lit '')'' (dropWhile (\<lambda>c. c \<noteq> CHR '')'') s5) = Some s6"
    "lit ''{'' (ws_star s6) = Some s7"
    "lit ''}'' (dropWhile (\<lambda>c. c \<noteq> CHR ''}'') s7) = Some r"
    by (auto simp: match_try_catch_def split: bind_splits if_splits)
  note steps = this
  have "length r \<le> length (dropWhile (\<lambda>c. c \<noteq> CHR ''}'') s7)" by (rule lit_le [OF steps(7)])
  also have "\<dots> \<le> length s7" by (rule length_dropWhile_le)
  also have "\<dots> \<le> length (ws_star s6)" by (rule lit_le [OF steps(6)])
  also have "\<dots> \<le> length s6" by (rule ws_star_length)
  also have "\<dots> \<le> length (dropWhile (\<lambda>c. c \<noteq> CHR '')'') s5)" by (rule lit_le [OF steps(5)])
  also have "\<dots> \<le> length s5" by (rule length_dropWhile_le)
  also have "\<dots> \<le> length (ws_star s4)" by (rule lit_le [OF steps(4)])
  also have "\<dots> \<le> length s4" by (rule ws_star_length)
  also have "\<dots> \<le> length (ws_star s3)" by (rule lit_le [OF steps(3)])
  also have "\<dots> \<le> length s3" by (rule ws_star_length)
  also have "\<dots> \<le> length (dropWhile (\<lambda>c. c \<noteq> CHR ''}'') s2)" by (rule lit_le [OF steps(2)])
  also have "\<dots> \<le> length s2" by (rule length_dropWhile_le)
  also have "\<dots> \<le> length (ws_star s1)" by (rule lit_le [OF steps(1)])
  also have "\<dots> \<le> length s1" by (rule ws_star_length)
  also have "\<dots> < length s" using lit_length [OF s1] by simp
  finally show ?thesis .
qed

lemma search_try_catch_shorter:
  "search_try_catch s = Some (a, b, c, r) \<Longrightarrow> length r < length s"
proof (induction s)
  case Nil
  then show ?case using match_try_catch_shorter by fastforce
next
  case (Cons x xs)
  show ?case
  proof (cases "match_try_catch (x # xs)")
    case None
    with Cons have "length r < length xs" by simp
    then show ?thesis by simp
  next
    case (Some t)
    with Cons.prems have "match_try_catch (x # xs) = Some (a, b, c, r)" by simp
    then show ?thesis by (rule match_try_catch_shorter)
  qed
qed

text \<open>
  Whether the search loop of a pattern, run on the text \<open>pre @ rest\<close>, comes to stand at the
  start of \<open>rest\<close>: it goes through \<open>pre\<close> as the loop does, one character on where the
  pattern does not match and behind the match where it does, and every match it takes on
  the way ends at or before the start of \<open>rest\<close>. The pattern is given by its matcher \<open>m\<close>,
  and \<open>rem\<close> gives the text after a match. The second test on the lengths holds for every
  pattern here and makes the definition total for any matcher.
\<close>

function scan_reaches :: "(string \<Rightarrow> 'a option) \<Rightarrow> ('a \<Rightarrow> string) \<Rightarrow> string \<Rightarrow> string \<Rightarrow> bool" where
  "scan_reaches m rem pre rest =
     (if pre = [] then True
      else
        (case m (pre @ rest) of
           None \<Rightarrow> scan_reaches m rem (tl pre) rest
         | Some y \<Rightarrow>
             if length rest \<le> length (rem y) \<and> length (rem y) < length (pre @ rest)
             then scan_reaches m rem (take (length (rem y) - length rest) (rem y)) rest
             else False))"
  by pat_completeness auto
termination
  by (relation "measure (\<lambda>(m, rem, pre, rest). length pre)") auto

declare scan_reaches.simps [simp del]

text \<open>The text after a match of the try/catch pattern.\<close>

definition try_catch_rest :: "string \<times> string \<times> string \<times> string \<Rightarrow> string" where
  "try_catch_rest y = (case y of (m1, m2, m3, rest) \<Rightarrow> rest)"

text \<open>
  The texts the try/catch pattern matches as a whole, read off the pattern: the word
  \<^verbatim>\<open>try\<close>, a braced text without a closing brace, the word \<^verbatim>\<open>catch\<close>, a parenthesised
  non-empty text without a closing parenthesis, and a braced text without a closing brace,
  with white space allowed in the four places where the pattern has \<^verbatim>\<open>\s*\<close>.
\<close>

definition try_catch_text :: "string \<Rightarrow> bool" where
  "try_catch_text s =
     (\<exists>w1 A w2 w3 B w4 C.
        s = ''try'' @ w1 @ ''{'' @ A @ ''}'' @ w2 @ ''catch'' @ w3 @ ''('' @ B @ '')'' @ w4 @
            ''{'' @ C @ ''}'' \<and>
        list_all isspace w1 \<and> list_all isspace w2 \<and> list_all isspace w3 \<and> list_all isspace w4 \<and>
        CHR ''}'' \<notin> set A \<and> B \<noteq> [] \<and> CHR '')'' \<notin> set B \<and> CHR ''}'' \<notin> set C)"

subsection \<open>parseCatchParameter\<close>

text \<open>
  The three \<^verbatim>\<open>std::regex_replace\<close> calls: every match of \<^verbatim>\<open>\s*const\s*\<close>, then of
  \<^verbatim>\<open>\s*&\s*\<close>, then of \<^verbatim>\<open>\s+\<close>, from left to right and without overlap, becomes one space.
\<close>

function replace_const :: "string \<Rightarrow> string" where
  "replace_const s =
     (case lit ''const'' (ws_star s) of
        Some r \<Rightarrow> CHR '' '' # replace_const (ws_star r)
      | None \<Rightarrow> (case s of [] \<Rightarrow> [] | c # cs \<Rightarrow> c # replace_const cs))"
  by pat_completeness auto
termination
proof (relation "measure length")
  show "wf (measure length)" by simp
next
  fix s r :: string
  assume "lit ''const'' (ws_star s) = Some r"
  from lit_length [OF this] have "length r < length (ws_star s)" by simp
  with ws_star_length [of s] ws_star_length [of r]
  show "(ws_star r, s) \<in> measure length" by simp
next
  fix s :: string and c cs
  assume "s = c # cs"
  then show "(cs, s) \<in> measure length" by simp
qed

declare replace_const.simps [simp del]

function replace_amp :: "string \<Rightarrow> string" where
  "replace_amp s =
     (case lit ''&'' (ws_star s) of
        Some r \<Rightarrow> CHR '' '' # replace_amp (ws_star r)
      | None \<Rightarrow> (case s of [] \<Rightarrow> [] | c # cs \<Rightarrow> c # replace_amp cs))"
  by pat_completeness auto
termination
proof (relation "measure length")
  show "wf (measure length)" by simp
next
  fix s r :: string
  assume "lit ''&'' (ws_star s) = Some r"
  from lit_length [OF this] have "length r < length (ws_star s)" by simp
  with ws_star_length [of s] ws_star_length [of r]
  show "(ws_star r, s) \<in> measure length" by simp
next
  fix s :: string and c cs
  assume "s = c # cs"
  then show "(cs, s) \<in> measure length" by simp
qed

declare replace_amp.simps [simp del]

function collapse_ws :: "string \<Rightarrow> string" where
  "collapse_ws [] = []"
| "collapse_ws (c # cs) =
     (if isspace c then CHR '' '' # collapse_ws (ws_star cs) else c # collapse_ws cs)"
  by pat_completeness auto
termination
  by (relation "measure length") (auto simp: ws_star_length le_imp_less_Suc)

text \<open>\<^verbatim>\<open>find_last_of(' ')\<close>: the index of the last space.\<close>

definition find_last_of :: "char \<Rightarrow> string \<Rightarrow> nat option" where
  "find_last_of c s =
     (let r = dropWhile (\<lambda>x. x \<noteq> c) (rev s) in if r = [] then None else Some (length r - 1))"

text \<open>
  The two \<^verbatim>\<open>erase\<close> calls that trim a string: drop the leading characters of the set, then
  the trailing ones (everything, if the string has no other character).
\<close>

definition erase_ends :: "string \<Rightarrow> string \<Rightarrow> string" where
  "erase_ends cs s =
     (let s1 = dropWhile (\<lambda>c. c \<in> set cs) s in rev (dropWhile (\<lambda>c. c \<in> set cs) (rev s1)))"

definition parseCatchParameter :: "string \<Rightarrow> string \<times> string" where
  "parseCatchParameter param =
     (if param = ''...'' then (''...'', '''')
      else
        let cleaned = collapse_ws (replace_amp (replace_const param));
            (type, var) =
              (case find_last_of CHR '' '' cleaned of
                 Some last_space \<Rightarrow> (take last_space cleaned, drop (last_space + 1) cleaned)
               | None \<Rightarrow> (cleaned, ''e''))
        in (erase_ends [CHR '' '', CHR 0x09, CHR 0x0A] type,
            erase_ends [CHR '' '', CHR 0x09, CHR 0x0A] var))"

subsection \<open>detectTryCatchBlocks and analyzeFunction\<close>

text \<open>
  The \<^verbatim>\<open>while (std::regex_search(...))\<close> loop of \<^verbatim>\<open>detectTryCatchBlocks\<close>: one block with
  one catch clause for each match, then the search goes on behind the match.
\<close>

function detectTryCatchBlocks_loop :: "string \<Rightarrow> TryCatchBlock list \<Rightarrow> TryCatchBlock list" where
  "detectTryCatchBlocks_loop s blocks =
     (case search_try_catch s of
        None \<Rightarrow> blocks
      | Some (m1, m2, m3, rest) \<Rightarrow>
          (let (type, var) = parseCatchParameter m2;
               clause = \<lparr>exception_type = type, exception_var = var, handler_body = m3\<rparr>;
               block = \<lparr>try_body = m1, catch_clauses = [clause]\<rparr>
           in detectTryCatchBlocks_loop rest (blocks @ [block])))"
  by pat_completeness auto
termination
  by (relation "measure (\<lambda>(s, blocks). length s)") (auto dest: search_try_catch_shorter)

declare detectTryCatchBlocks_loop.simps [simp del]

text \<open>\<^verbatim>\<open>std::regex_search(func.body, "throw\s+")\<close>.\<close>

fun regex_search_throw :: "string \<Rightarrow> bool" where
  "regex_search_throw [] = False"
| "regex_search_throw (c # cs) =
     ((case lit ''throw'' (c # cs) of Some (d # r) \<Rightarrow> isspace d | _ \<Rightarrow> False)
      \<or> regex_search_throw cs)"

definition detectTryCatchBlocks :: "Function \<Rightarrow> Function" where
  "detectTryCatchBlocks func =
     func\<lparr>try_catch_blocks := detectTryCatchBlocks_loop (body func) (try_catch_blocks func)\<rparr>"

definition detectThrowStatements :: "Function \<Rightarrow> Function" where
  "detectThrowStatements func =
     (if regex_search_throw (body func)
      then func\<lparr>exception_spec := (exception_spec func)\<lparr>can_throw := True\<rparr>\<rparr>
      else func)"

definition containsThrowStatement :: "string \<Rightarrow> bool" where
  "containsThrowStatement b = contains_str b ''throw ''"

definition analyzeExceptionSpec :: "Function \<Rightarrow> Function" where
  "analyzeExceptionSpec func =
     (if contains_str (fn_name func) ''noexcept''
      then func\<lparr>exception_spec := (exception_spec func)\<lparr>is_noexcept := True, can_throw := False\<rparr>\<rparr>
      else func)"

text \<open>\<^verbatim>\<open>ExceptionAnalyzer::analyzeFunction\<close>.\<close>

definition ExceptionAnalyzer_analyzeFunction :: "Function \<Rightarrow> Function" where
  "ExceptionAnalyzer_analyzeFunction func =
     (let func = detectTryCatchBlocks func;
          func = detectThrowStatements func;
          func = analyzeExceptionSpec func
      in func\<lparr>may_throw :=
           can_throw (exception_spec func) \<or> try_catch_blocks func \<noteq> [] \<or>
           containsThrowStatement (body func)\<rparr>)"

text \<open>A function with a name and a body and nothing else: no annotation yet.\<close>

definition named_function :: "string \<Rightarrow> string \<Rightarrow> Function" where
  "named_function n b =
     \<lparr>fn_name = n, return_type = None, parameters = [], body = b, fn_is_const = False,
      fn_is_static = False, is_virtual = False, is_pure_virtual = False,
      is_constructor = False, is_destructor = False, moved_params = [], borrowed_params = [],
      threads_created = [], try_catch_blocks = [],
      exception_spec = \<lparr>is_noexcept = False, can_throw = False\<rparr>, may_throw = False\<rparr>"

section \<open>STLContainerMapper::extractTemplateArgs\<close>



text \<open>
  \<^verbatim>\<open>trim\<close>: the text from the first to the last character that is not a space, tab, line
  feed or carriage return; empty when there is none.
\<close>

definition trim :: "string \<Rightarrow> string" where
  "trim str = erase_ends [CHR '' '', CHR 0x09, CHR 0x0A, CHR 0x0D] str"









section \<open>ThreadAnalyzer::detectThreadCreation\<close>

text \<open>\<open>isword\<close> is the class \<^verbatim>\<open>\w\<close>: the ASCII letters and digits and the underscore.\<close>

definition isword :: "char \<Rightarrow> bool" where
  "isword c =
     (let n = (of_char c :: nat)
      in (48 \<le> n \<and> n \<le> 57) \<or> (65 \<le> n \<and> n \<le> 90) \<or> (97 \<le> n \<and> n \<le> 122) \<or> n = 95)"

text \<open>\<^verbatim>\<open>\s+\<close> and the capture \<^verbatim>\<open>(\w+)\<close>: the rest of the text, and the captured word with it.\<close>

definition ws_plus :: "string \<Rightarrow> string option" where
  "ws_plus s = (case s of [] \<Rightarrow> None | c # cs \<Rightarrow> if isspace c then Some (ws_star cs) else None)"

definition word :: "string \<Rightarrow> (string \<times> string) option" where
  "word s = (if takeWhile isword s = [] then None else Some (takeWhile isword s, dropWhile isword s))"

text \<open>
  The end of a spawn pattern, \<^verbatim>\<open>(?:,\s*([^)]*))?\)\<close> for the closing character \<^verbatim>\<open>)\<close> and the
  same with \<^verbatim>\<open>}\<close>: after a comma the third capture runs up to the first closing character,
  which must be there; without a comma the closing character must come at once and the
  capture does not take part in the match.
\<close>

definition match_args :: "char \<Rightarrow> string \<Rightarrow> (string option \<times> string) option" where
  "match_args close s =
     (case lit '','' s of
        Some r \<Rightarrow>
          (case lit [close] (dropWhile (\<lambda>c. c \<noteq> close) (ws_star r)) of
             Some rest \<Rightarrow> Some (Some (takeWhile (\<lambda>c. c \<noteq> close) (ws_star r)), rest)
           | None \<Rightarrow> None)
      | None \<Rightarrow>
          (case lit [close] s of Some rest \<Rightarrow> Some (None, rest) | None \<Rightarrow> None))"

text \<open>
  The three spawn patterns, each with its captures (variable, callable, argument text) and
  the text after the match:
  \<^verbatim>\<open>std::thread\s+(\w+)\s*\(\s*(\w+)\s*(?:,\s*([^)]*))?\)\<close>,
  \<^verbatim>\<open>std::thread\s+(\w+)\s*\{\s*(\w+)\s*(?:,\s*([^}]*))?\}\<close> and
  \<^verbatim>\<open>(?:auto|std::thread)\s+(\w+)\s*=\s*std::thread\s*\(\s*(\w+)\s*(?:,\s*([^)]*))?\)\<close>.
\<close>

type_synonym thread_match = "string \<times> string \<times> string option"

definition match_thread1 :: "string \<Rightarrow> (thread_match \<times> string) option" where
  "match_thread1 s = do {
     s1 \<leftarrow> lit ''std::thread'' s;
     s2 \<leftarrow> ws_plus s1;
     (m1, s3) \<leftarrow> word s2;
     s4 \<leftarrow> lit ''('' (ws_star s3);
     (m2, s5) \<leftarrow> word (ws_star s4);
     (m3, rest) \<leftarrow> match_args CHR '')'' (ws_star s5);
     Some ((m1, m2, m3), rest)
   }"

definition match_thread2 :: "string \<Rightarrow> (thread_match \<times> string) option" where
  "match_thread2 s = do {
     s1 \<leftarrow> lit ''std::thread'' s;
     s2 \<leftarrow> ws_plus s1;
     (m1, s3) \<leftarrow> word s2;
     s4 \<leftarrow> lit ''{'' (ws_star s3);
     (m2, s5) \<leftarrow> word (ws_star s4);
     (m3, rest) \<leftarrow> match_args CHR ''}'' (ws_star s5);
     Some ((m1, m2, m3), rest)
   }"

definition match_thread3 :: "string \<Rightarrow> (thread_match \<times> string) option" where
  "match_thread3 s = do {
     s1 \<leftarrow> (case lit ''auto'' s of Some r \<Rightarrow> Some r | None \<Rightarrow> lit ''std::thread'' s);
     s2 \<leftarrow> ws_plus s1;
     (m1, s3) \<leftarrow> word s2;
     s4 \<leftarrow> lit ''='' (ws_star s3);
     s5 \<leftarrow> lit ''std::thread'' (ws_star s4);
     s6 \<leftarrow> lit ''('' (ws_star s5);
     (m2, s7) \<leftarrow> word (ws_star s6);
     (m3, rest) \<leftarrow> match_args CHR '')'' (ws_star s7);
     Some ((m1, m2, m3), rest)
   }"

text \<open>\<^verbatim>\<open>(\w+)\.detach\s*\(\)\<close>.\<close>

definition match_detach :: "string \<Rightarrow> (string \<times> string) option" where
  "match_detach s = do {
     (m1, s1) \<leftarrow> word s;
     s2 \<leftarrow> lit ''.detach'' s1;
     rest \<leftarrow> lit ''()'' (ws_star s2);
     Some (m1, rest)
   }"

text \<open>
  \<^verbatim>\<open>std::regex_search\<close> for a pattern given by its matcher: the match at the leftmost start.
  \<open>regex_matches\<close> is the loop \<^verbatim>\<open>while (std::regex_search(search_start, ...))\<close> with
  \<^verbatim>\<open>search_start = match.suffix().first\<close>: all matches from left to right. The patterns here
  never match the empty text (\<open>consuming\<close> below), so the search always moves on; the test
  on the lengths makes the definition total for any matcher.
\<close>

fun regex_search :: "(string \<Rightarrow> ('a \<times> string) option) \<Rightarrow> string \<Rightarrow> ('a \<times> string) option" where
  "regex_search m [] = m []"
| "regex_search m (c # cs) = (case m (c # cs) of Some r \<Rightarrow> Some r | None \<Rightarrow> regex_search m cs)"

function regex_matches :: "(string \<Rightarrow> ('a \<times> string) option) \<Rightarrow> string \<Rightarrow> 'a list" where
  "regex_matches m s =
     (case regex_search m s of
        None \<Rightarrow> []
      | Some (x, rest) \<Rightarrow> if length rest < length s then x # regex_matches m rest else [x])"
  by pat_completeness auto
termination
  by (relation "measure (\<lambda>(m, s). length s)") auto

declare regex_matches.simps [simp del]

text \<open>
  \<^verbatim>\<open>parseArguments\<close>: the loop over the characters with \<open>current_arg\<close>, the two depth
  counters and the vector it appends to, then the last argument.
\<close>

fun parseArguments_loop ::
  "string \<Rightarrow> string \<Rightarrow> int \<Rightarrow> int \<Rightarrow> string list \<Rightarrow> string \<times> string list" where
  "parseArguments_loop [] current_arg paren_depth bracket_depth args = (current_arg, args)"
| "parseArguments_loop (c # cs) current_arg paren_depth bracket_depth args =
     (if c = CHR ''('' \<or> c = CHR ''{'' then
        parseArguments_loop cs (current_arg @ [c]) (paren_depth + 1) bracket_depth args
      else if c = CHR '')'' \<or> c = CHR ''}'' then
        parseArguments_loop cs (current_arg @ [c]) (paren_depth - 1) bracket_depth args
      else if c = CHR ''['' then
        parseArguments_loop cs (current_arg @ [c]) paren_depth (bracket_depth + 1) args
      else if c = CHR '']'' then
        parseArguments_loop cs (current_arg @ [c]) paren_depth (bracket_depth - 1) args
      else if c = CHR '','' \<and> paren_depth = 0 \<and> bracket_depth = 0 then
        (let trimmed = trim current_arg
         in parseArguments_loop cs [] paren_depth bracket_depth
              (if trimmed \<noteq> [] then args @ [trimmed] else args))
      else parseArguments_loop cs (current_arg @ [c]) paren_depth bracket_depth args)"

definition parseArguments :: "string \<Rightarrow> string list \<Rightarrow> string list" where
  "parseArguments args_str args =
     (if args_str = [] then args
      else
        (let (current_arg, args) = parseArguments_loop args_str [] 0 0 args;
             trimmed = trim current_arg
         in if trimmed \<noteq> [] then args @ [trimmed] else args))"

text \<open>
  Modelled from the spec: \<^verbatim>\<open>include/ir.h\<close> does not declare \<^verbatim>\<open>ThreadInfo\<close>, so the values
  of \<open>detached\<close> and \<open>joinable\<close> in a freshly constructed record are taken from the spec,
  where a detach call marks a recorded thread as detached and therefore non-joinable: a
  fresh record is not detached and joinable.
\<close>

definition new_ThreadInfo :: ThreadInfo where
  "new_ThreadInfo =
     \<lparr>thread_var_name = [], function_name = [], arguments = [], detached = False, joinable = True\<rparr>"

text \<open>The record built from one match: the body of the three search loops.\<close>

definition thread_info_of :: "thread_match \<Rightarrow> ThreadInfo" where
  "thread_info_of m =
     (case m of (m1, m2, m3) \<Rightarrow>
        new_ThreadInfo\<lparr>thread_var_name := m1, function_name := m2,
          arguments := (case m3 of Some a \<Rightarrow> parseArguments a [] | None \<Rightarrow> [])\<rparr>)"

text \<open>
  The inner \<^verbatim>\<open>for\<close> loop of the detach search: the first recorded thread of that name is
  marked, and the loop breaks.
\<close>

fun mark_detached :: "string \<Rightarrow> ThreadInfo list \<Rightarrow> ThreadInfo list" where
  "mark_detached thread_var [] = []"
| "mark_detached thread_var (thread # threads) =
     (if thread_var_name thread = thread_var
      then thread\<lparr>detached := True, joinable := False\<rparr> # threads
      else thread # mark_detached thread_var threads)"

text \<open>
  \<^verbatim>\<open>detectThreadCreation\<close>, as it acts on the vector \<^verbatim>\<open>func.threads_created\<close>: the matches
  of the three patterns are appended in this order, then every detach call marks a thread.
  The other detectors of \<^verbatim>\<open>ThreadAnalyzer::analyzeFunction\<close> (locks, atomics, condition
  variables) write to vectors of their own and leave this one alone.
\<close>

definition detectThreadCreation_threads :: "string \<Rightarrow> ThreadInfo list \<Rightarrow> ThreadInfo list" where
  "detectThreadCreation_threads body_text threads =
     (let threads = threads @ map thread_info_of (regex_matches match_thread1 body_text);
          threads = threads @ map thread_info_of (regex_matches match_thread2 body_text);
          threads = threads @ map thread_info_of (regex_matches match_thread3 body_text)
      in foldl (\<lambda>threads thread_var. mark_detached thread_var threads) threads
           (regex_matches match_detach body_text))"

definition detectThreadCreation :: "Function \<Rightarrow> Function" where
  "detectThreadCreation func =
     func\<lparr>threads_created := detectThreadCreation_threads (body func) (threads_created func)\<rparr>"

definition consuming :: "(string \<Rightarrow> ('a \<times> string) option) \<Rightarrow> bool" where
  "consuming m = (\<forall>s x r. m s = Some (x, r) \<longrightarrow> length r < length s)"

section \<open>Throw statements\<close>

text \<open>
  The condition of the spec that a body contains a throw statement, in the words of the
  spec and not of the code: the keyword \<^verbatim>\<open>throw\<close> stands in the body as a word of its own,
  neither preceded nor followed by a word character. \<open>prev\<close> tells whether the character
  before the current position is a word character.
\<close>

fun throw_keyword :: "bool \<Rightarrow> string \<Rightarrow> bool" where
  "throw_keyword prev [] = False"
| "throw_keyword prev (c # cs) =
     ((\<not> prev \<and> prefix ''throw'' (c # cs) \<and>
       (case drop 5 (c # cs) of [] \<Rightarrow> True | d # r \<Rightarrow> \<not> isword d))
      \<or> throw_keyword (isword c) cs)"

definition has_throw_statement :: "string \<Rightarrow> bool" where
  "has_throw_statement b = throw_keyword False b"

section \<open>The registry invariant\<close>

lemma registry_inv_addClass: "registry_inv ir \<Longrightarrow> registry_inv (addClass c ir)"
  by (auto simp: registry_inv_def addClass_def registerType_def findType_def set_name_def
      new_Type_def)

lemma registry_inv_addFunction: "registry_inv ir \<Longrightarrow> registry_inv (addFunction f ir)"
  by (auto simp: registry_inv_def addFunction_def findType_def)

lemma registry_inv_addGlobalVariable:
  "registry_inv ir \<Longrightarrow> registry_inv (addGlobalVariable v ir)"
  by (auto simp: registry_inv_def addGlobalVariable_def findType_def)

lemma registry_inv_registerType:
  assumes "registry_inv ir"
    and "n \<notin> class_name ` set (classes ir) \<or> (\<exists>t. p = Some t \<and> name t = n \<and> kind t = Class)"
  shows "registry_inv (registerType n p ir)"
  using assms by (auto simp: registry_inv_def registerType_def findType_def)

lemma findType_registerType:
  "findType (registerType n p ir) m = (if m = n then p else findType ir m)"
  by (simp add: registerType_def findType_def)

text \<open>
  C8, as stated, fails: \<open>registerType\<close> is an operation of the container and it overwrites
  whatever the name held. Registering the builtin \<open>int\<close> type under the name of a class
  that was added before leaves that class without a class-kind entry of its name.
\<close>

theorem registerType_breaks_registry_inv:
  "registry_inv (addClass (named_class ''Foo'') new_IR) \<and>
   \<not> registry_inv
       (registerType ''Foo'' (mapBuiltinType ''int'') (addClass (named_class ''Foo'') new_IR))"
  by (simp add: registry_inv_def addClass_def registerType_def findType_def new_IR_def
      named_class_def mapBuiltinType_def builtin_map_def set_name_def set_size_bytes_def
      set_alignment_def new_Type_def)

text \<open>
  C8, amended. The empty container satisfies the invariant; \<open>addClass\<close>, \<open>addFunction\<close> and
  \<open>addGlobalVariable\<close> preserve it; \<open>registerType\<close> preserves it when the name is not the
  name of a class in \<open>classes\<close> or the registered type is a class-kind type of that name.
  \<open>addClass\<close> appends the class and registers a fresh class-kind type under its name;
  \<open>addFunction\<close> and \<open>addGlobalVariable\<close> append to their own list and leave \<open>classes\<close> and
  the registry as they were; \<open>registerType\<close> overwrites the entry of its name only (the last
  write wins); \<open>findType\<close> returns the registered pointer, and nothing for a name that was
  never registered.
\<close>

theorem registry_inv_preserved:
  "registry_inv new_IR \<and>
   (registry_inv ir \<longrightarrow>
      registry_inv (addClass c ir) \<and> registry_inv (addFunction f ir) \<and>
      registry_inv (addGlobalVariable v ir) \<and>
      (n \<notin> class_name ` set (classes ir) \<or> (\<exists>t. p = Some t \<and> name t = n \<and> kind t = Class)
         \<longrightarrow> registry_inv (registerType n p ir))) \<and>
   classes (addClass c ir) = classes ir @ [c] \<and>
   findType (addClass c ir) (class_name c) = Some (Type Class (class_name c) False True None [] 0 0) \<and>
   (m \<noteq> class_name c \<longrightarrow> findType (addClass c ir) m = findType ir m) \<and>
   free_functions (addFunction f ir) = free_functions ir @ [f] \<and>
   classes (addFunction f ir) = classes ir \<and>
   type_registry (addFunction f ir) = type_registry ir \<and>
   global_vars (addGlobalVariable v ir) = global_vars ir @ [v] \<and>
   classes (addGlobalVariable v ir) = classes ir \<and>
   type_registry (addGlobalVariable v ir) = type_registry ir \<and>
   classes (registerType n p ir) = classes ir \<and>
   findType (registerType n p ir) n = p \<and>
   findType (registerType n q (registerType n p ir)) n = q \<and>
   (m \<noteq> n \<longrightarrow> findType (registerType n p ir) m = findType ir m) \<and>
   findType new_IR n = None"
proof -
  have empty: "registry_inv new_IR"
    by (simp add: registry_inv_def new_IR_def)
  have keep: "registry_inv ir \<longrightarrow>
      registry_inv (addClass c ir) \<and> registry_inv (addFunction f ir) \<and>
      registry_inv (addGlobalVariable v ir) \<and>
      (n \<notin> class_name ` set (classes ir) \<or> (\<exists>t. p = Some t \<and> name t = n \<and> kind t = Class)
         \<longrightarrow> registry_inv (registerType n p ir))"
    using registry_inv_addClass registry_inv_addFunction registry_inv_addGlobalVariable
      registry_inv_registerType by blast
  have add_class: "classes (addClass c ir) = classes ir @ [c]"
    "findType (addClass c ir) (class_name c) = Some (Type Class (class_name c) False True None [] 0 0)"
    "m \<noteq> class_name c \<longrightarrow> findType (addClass c ir) m = findType ir m"
    by (simp_all add: addClass_def registerType_def findType_def set_name_def new_Type_def)
  have add_fun: "free_functions (addFunction f ir) = free_functions ir @ [f]"
    "classes (addFunction f ir) = classes ir"
    "type_registry (addFunction f ir) = type_registry ir"
    by (simp_all add: addFunction_def)
  have add_var: "global_vars (addGlobalVariable v ir) = global_vars ir @ [v]"
    "classes (addGlobalVariable v ir) = classes ir"
    "type_registry (addGlobalVariable v ir) = type_registry ir"
    by (simp_all add: addGlobalVariable_def)
  have reg: "classes (registerType n p ir) = classes ir"
    "findType (registerType n p ir) n = p"
    "findType (registerType n q (registerType n p ir)) n = q"
    "m \<noteq> n \<longrightarrow> findType (registerType n p ir) m = findType ir m"
    "findType new_IR n = None"
    by (simp_all add: findType_registerType) (simp_all add: registerType_def findType_def new_IR_def)
  from empty keep add_class add_fun add_var reg show ?thesis
    by blast
qed

theorem registry_inv_preserved_witness:
  "registry_inv (addClass (named_class ''Foo'') new_IR) \<and>
   registry_inv (addClass (named_class ''Bar'') (addClass (named_class ''Foo'') new_IR)) \<and>
   registry_inv (registerType ''int'' (mapBuiltinType ''int'') (addClass (named_class ''Foo'') new_IR)) \<and>
   findType (registerType ''int'' (mapBuiltinType ''int'') (addClass (named_class ''Foo'') new_IR)) ''Foo''
     = Some (Type Class ''Foo'' False True None [] 0 0)"
proof -
  let ?ir = "addClass (named_class ''Foo'') new_IR"
  have a: "registry_inv ?ir"
    using registry_inv_preserved [of new_IR "named_class ''Foo''"] by blast
  have b: "registry_inv (addClass (named_class ''Bar'') ?ir)"
    using a registry_inv_preserved [of ?ir "named_class ''Bar''"] by blast
  have cls: "classes ?ir = [named_class ''Foo'']"
    by (simp add: addClass_def registerType_def new_IR_def)
  have "''int'' \<notin> class_name ` set (classes ?ir)"
    unfolding cls by (simp add: named_class_def)
  then have c: "registry_inv (registerType ''int'' (mapBuiltinType ''int'') ?ir)"
    using a registry_inv_preserved [of ?ir _ _ _ "''int''" "mapBuiltinType ''int''"] by blast
  have d: "findType (registerType ''int'' (mapBuiltinType ''int'') ?ir) ''Foo''
     = Some (Type Class ''Foo'' False True None [] 0 0)"
    by (simp add: findType_registerType)
      (simp add: addClass_def registerType_def findType_def named_class_def set_name_def new_Type_def)
  from a b c d show ?thesis by blast
qed

section \<open>Builtin sizes\<close>

lemma mapBuiltinType_Some:
  assumes "mapBuiltinType n = Some t"
  shows "name t = n \<and> alignment t = size_bytes t \<and> size_bytes t = getSizeForType n"
  using assms
  by (auto simp: mapBuiltinType_def set_name_def set_size_bytes_def set_alignment_def
      new_Type_def Let_def split: option.splits)

text \<open>
  C3. Every name of the builtin table maps to a type whose size is the fixed size of that
  name (the list below: one byte for \<open>bool\<close>, \<open>char\<close> and the 8-bit aliases, two for
  \<open>short\<close> and the 16-bit aliases, four for \<open>int\<close>, \<open>float\<close> and the 32-bit aliases, eight
  for \<open>long\<close>, \<open>long long\<close>, \<open>double\<close>, \<open>size_t\<close> and the 64-bit aliases, none for \<open>void\<close>),
  with the alignment equal to the size. Whenever a name maps to a type, the type carries
  that name, so mapping the result's name again gives the same type: same kind, name, size
  and alignment.
\<close>

theorem mapBuiltinType_sizes_idempotent:
  "map (\<lambda>n. (n, map_option size_bytes (mapBuiltinType n))) (map fst builtin_map) =
     [(''void'', Some 0), (''bool'', Some 1), (''char'', Some 1), (''short'', Some 2),
      (''int'', Some 4), (''long'', Some 8), (''long long'', Some 8),
      (''unsigned char'', Some 1), (''unsigned short'', Some 2), (''unsigned int'', Some 4),
      (''unsigned long'', Some 8), (''unsigned long long'', Some 8),
      (''int8_t'', Some 1), (''int16_t'', Some 2), (''int32_t'', Some 4), (''int64_t'', Some 8),
      (''uint8_t'', Some 1), (''uint16_t'', Some 2), (''uint32_t'', Some 4),
      (''uint64_t'', Some 8), (''size_t'', Some 8), (''float'', Some 4), (''double'', Some 8)] \<and>
   (\<forall>n t. mapBuiltinType n = Some t \<longrightarrow>
      alignment t = size_bytes t \<and> name t = n \<and> mapBuiltinType (name t) = Some t)"
proof -
  have sizes: "map (\<lambda>n. (n, map_option size_bytes (mapBuiltinType n))) (map fst builtin_map) =
     [(''void'', Some 0), (''bool'', Some 1), (''char'', Some 1), (''short'', Some 2),
      (''int'', Some 4), (''long'', Some 8), (''long long'', Some 8),
      (''unsigned char'', Some 1), (''unsigned short'', Some 2), (''unsigned int'', Some 4),
      (''unsigned long'', Some 8), (''unsigned long long'', Some 8),
      (''int8_t'', Some 1), (''int16_t'', Some 2), (''int32_t'', Some 4), (''int64_t'', Some 8),
      (''uint8_t'', Some 1), (''uint16_t'', Some 2), (''uint32_t'', Some 4),
      (''uint64_t'', Some 8), (''size_t'', Some 8), (''float'', Some 4), (''double'', Some 8)]"
    by (simp add: builtin_map_def mapBuiltinType_def size_map_def getSizeForType_def
        set_name_def set_size_bytes_def set_alignment_def new_Type_def)
  have idem: "\<forall>n t. mapBuiltinType n = Some t \<longrightarrow>
      alignment t = size_bytes t \<and> name t = n \<and> mapBuiltinType (name t) = Some t"
    using mapBuiltinType_Some by auto
  from sizes idem show ?thesis by (rule conjI)
qed

theorem mapBuiltinType_sizes_idempotent_witness:
  "mapBuiltinType ''uint16_t'' = Some (Type Integer ''uint16_t'' False True None [] 2 2) \<and>
   mapBuiltinType (name (Type Integer ''uint16_t'' False True None [] 2 2)) =
     Some (Type Integer ''uint16_t'' False True None [] 2 2)"
proof -
  have m: "mapBuiltinType ''uint16_t'' = Some (Type Integer ''uint16_t'' False True None [] 2 2)"
    by (simp add: builtin_map_def mapBuiltinType_def size_map_def getSizeForType_def
        set_name_def set_size_bytes_def set_alignment_def new_Type_def)
  with mapBuiltinType_sizes_idempotent show ?thesis by blast
qed

section \<open>Ownership classification\<close>

lemma contains_str_sublist: "contains_str s sub = sublist sub s"
  by (induction s) (auto simp: sublist_Cons_right)

text \<open>
  C5, as stated, fails: a pointer-kind type whose name contains the shared-pointer marker
  is not always classified as shared ownership. The name is searched for \<open>unique_ptr\<close>
  first, so a shared pointer to a unique pointer, whose name contains both markers, is
  classified as unique ownership.
\<close>

theorem shared_marker_beside_unique_marker:
  "kind (Type Pointer ''std::shared_ptr<std::unique_ptr<int>>'' False True None [] 8 8) = Pointer \<and>
   sublist ''shared_ptr'' ''std::shared_ptr<std::unique_ptr<int>>'' \<and>
   analyzePointerPattern
     (Some (Type Pointer ''std::shared_ptr<std::unique_ptr<int>>'' False True None [] 8 8))
     = UniqueOwnership \<and>
   UniqueOwnership \<noteq> SharedOwnership"
  by (simp add: analyzePointerPattern_def contains_str_sublist [symmetric])

text \<open>
  C5, amended. \<open>analyzePointerPattern\<close> gives every type (and the null pointer) one of the
  six patterns. For a pointer-kind type the name is searched for the marker \<open>unique_ptr\<close>
  first, then for \<open>shared_ptr\<close>: a name with the unique marker is unique ownership, a name
  with the shared marker and without the unique marker is shared ownership, and a pointer
  with neither is a raw pointer. A reference-kind type is a borrowed reference exactly when
  it is const and a mutable borrow exactly when it is not, and it is never anything else.
  Every other kind, and the null pointer, has value semantics.
\<close>

theorem analyzePointerPattern_classification:
  "analyzePointerPattern None = ValueSemantics \<and>
   (kind t = Pointer \<and> sublist ''unique_ptr'' (name t)
      \<longrightarrow> analyzePointerPattern (Some t) = UniqueOwnership) \<and>
   (kind t = Pointer \<and> \<not> sublist ''unique_ptr'' (name t) \<and> sublist ''shared_ptr'' (name t)
      \<longrightarrow> analyzePointerPattern (Some t) = SharedOwnership) \<and>
   (kind t = Pointer \<and> \<not> sublist ''unique_ptr'' (name t) \<and> \<not> sublist ''shared_ptr'' (name t)
      \<longrightarrow> analyzePointerPattern (Some t) = RawPointer) \<and>
   (kind t = Reference \<longrightarrow>
      (analyzePointerPattern (Some t) = BorrowedReference) = is_const t \<and>
      (analyzePointerPattern (Some t) = MutableBorrow) = (\<not> is_const t) \<and>
      (analyzePointerPattern (Some t) = BorrowedReference \<or>
       analyzePointerPattern (Some t) = MutableBorrow)) \<and>
   (kind t \<noteq> Pointer \<and> kind t \<noteq> Reference
      \<longrightarrow> analyzePointerPattern (Some t) = ValueSemantics) \<and>
   (analyzePointerPattern (Some t) \<in> {BorrowedReference, MutableBorrow}) = (kind t = Reference)"
  by (simp add: analyzePointerPattern_def contains_str_sublist)

theorem analyzePointerPattern_classification_witness:
  "analyzePointerPattern (Some (Type Pointer ''std::unique_ptr<int>'' False True None [] 8 8))
     = UniqueOwnership \<and>
   analyzePointerPattern (Some (Type Pointer ''std::shared_ptr<int>'' False True None [] 8 8))
     = SharedOwnership \<and>
   analyzePointerPattern (Some (Type Pointer ''int*'' False True None [] 8 8)) = RawPointer \<and>
   analyzePointerPattern (Some (Type Reference ''int&'' True True None [] 8 8))
     = BorrowedReference \<and>
   analyzePointerPattern (Some (Type Reference ''int&'' False True None [] 8 8))
     = MutableBorrow \<and>
   analyzePointerPattern (Some (Type Integer ''int'' False True None [] 4 4)) = ValueSemantics"
proof -
  have u: "sublist ''unique_ptr'' ''std::unique_ptr<int>''"
    by (simp add: contains_str_sublist [symmetric])
  have s: "\<not> sublist ''unique_ptr'' ''std::shared_ptr<int>'' \<and>
      sublist ''shared_ptr'' ''std::shared_ptr<int>''"
    by (simp add: contains_str_sublist [symmetric])
  have r: "\<not> sublist ''unique_ptr'' ''int*'' \<and> \<not> sublist ''shared_ptr'' ''int*''"
    by (simp add: contains_str_sublist [symmetric])
  show ?thesis
    using u s r
      analyzePointerPattern_classification
        [of "Type Pointer ''std::unique_ptr<int>'' False True None [] 8 8"]
      analyzePointerPattern_classification
        [of "Type Pointer ''std::shared_ptr<int>'' False True None [] 8 8"]
      analyzePointerPattern_classification [of "Type Pointer ''int*'' False True None [] 8 8"]
      analyzePointerPattern_classification [of "Type Reference ''int&'' True True None [] 8 8"]
      analyzePointerPattern_classification [of "Type Reference ''int&'' False True None [] 8 8"]
      analyzePointerPattern_classification [of "Type Integer ''int'' False True None [] 4 4"]
    by simp
qed

section \<open>ThreadAnalyzer: the synchronisation inventory of a class: properties\<close>

lemma detectMutexMembers_loop_eq:
  assumes "\<forall>f \<in> set fs. var_type f \<noteq> None"
  shows "detectMutexMembers_loop fs ms = Inr (ms @ map mutex_info_of (filter is_mutex_field fs))"
  using assms
proof (induction fs arbitrary: ms)
  case Nil
  show ?case by simp
next
  case (Cons f fs)
  then obtain t where t: "var_type f = Some t" by auto
  from Cons.prems have rest: "\<forall>f \<in> set fs. var_type f \<noteq> None" by simp
  show ?case
    by (simp add: Cons.IH [OF rest] t is_mutex_field_def mutex_info_of_def)
qed

lemma detectAtomicMembers_loop_eq:
  assumes "\<forall>f \<in> set fs. var_type f \<noteq> None"
  shows "detectAtomicMembers_loop fs as = Inr (as @ map atomic_info_of (filter is_atomic_field fs))"
  using assms
proof (induction fs arbitrary: as)
  case Nil
  show ?case by simp
next
  case (Cons f fs)
  then obtain t where t: "var_type f = Some t" by auto
  from Cons.prems have rest: "\<forall>f \<in> set fs. var_type f \<noteq> None" by simp
  show ?case
    by (simp add: Cons.IH [OF rest] t is_atomic_field_def atomic_info_of_def)
qed

lemma mutex_info_of_name: "map mutex_var_name (map mutex_info_of fs) = map var_name fs"
  by (simp add: mutex_info_of_def)

lemma atomic_info_of_name: "map atomic_var_name (map atomic_info_of fs) = map var_name fs"
  by (simp add: atomic_info_of_def)

lemma analyzeClass_fields:
  assumes "\<forall>f \<in> set (class_fields c). var_type f \<noteq> None"
  shows "\<exists>c'. analyzeClass c = Inr c' \<and> class_fields c' = class_fields c \<and>
     mutexes c' = mutexes c @ map mutex_info_of (filter is_mutex_field (class_fields c)) \<and>
     atomic_fields c' =
       atomic_fields c @ map atomic_info_of (filter is_atomic_field (class_fields c)) \<and>
     thread_safe c' = (mutexes c' \<noteq> [] \<or> atomic_fields c' \<noteq> [])"
  using assms
  by (auto simp add: analyzeClass_def detectMutexMembers_def detectAtomicMembers_def
      detectMutexMembers_loop_eq detectAtomicMembers_loop_eq)

text \<open>
  C7, as stated, fails for a class whose inventories are not empty when the pass starts:
  the two loops append to \<^verbatim>\<open>class_decl.mutexes\<close> and \<^verbatim>\<open>class_decl.atomic_fields\<close>, they do
  not rebuild them. Analysing the class above a second time lists its mutex and its atomic
  twice, while it has one field of each kind; and an entry that the inventory held before
  the pass stays in it, whether or not the class has such a field.
\<close>

theorem analyzeClass_twice_duplicates:
  "(\<exists>c1 c2. analyzeClass counter_class = Inr c1 \<and> analyzeClass c1 = Inr c2 \<and>
     map var_name (filter is_mutex_field (class_fields c2)) = [''mtx''] \<and>
     map mutex_var_name (mutexes c2) = [''mtx'', ''mtx''] \<and>
     map var_name (filter is_atomic_field (class_fields c2)) = [''count''] \<and>
     map atomic_var_name (atomic_fields c2) = [''count'', ''count'']) \<and>
   (\<exists>c'. analyzeClass
            (counter_class\<lparr>mutexes := [\<lparr>mutex_type = Mutex, mutex_var_name = ''stale''\<rparr>]\<rparr>)
          = Inr c' \<and>
     map var_name (filter is_mutex_field (class_fields c')) = [''mtx''] \<and>
     map mutex_var_name (mutexes c') = [''stale'', ''mtx''])"
  by (simp add: analyzeClass_def detectMutexMembers_def detectAtomicMembers_def
      counter_class_def named_class_def typed_field_def new_Type_def is_mutex_field_def
      is_atomic_field_def)

text \<open>
  C7, amended. For a class whose fields all carry a type, \<open>analyzeClass\<close> returns the class
  with its fields unchanged; it appends to the mutex inventory the names of the fields of a
  mutex-like kind (\<open>StdMutex\<close>, \<open>StdRecursiveMutex\<close>, \<open>StdSharedMutex\<close>) and to the atomic
  inventory the names of the fields of kind \<open>StdAtomic\<close>, both in declaration order, and
  sets \<open>thread_safe\<close> to whether one of the two inventories is non-empty. When both
  inventories are empty before the pass, each holds exactly the names of those fields
  afterwards, and \<open>thread_safe\<close> holds exactly when the class has a field of one of the
  recognised kinds.
\<close>

theorem analyzeClass_inventory:
  assumes "\<forall>f \<in> set (class_fields c). var_type f \<noteq> None"
  shows "\<exists>c'. analyzeClass c = Inr c' \<and>
     class_fields c' = class_fields c \<and>
     map mutex_var_name (mutexes c') =
       map mutex_var_name (mutexes c) @ map var_name (filter is_mutex_field (class_fields c)) \<and>
     map atomic_var_name (atomic_fields c') =
       map atomic_var_name (atomic_fields c) @ map var_name (filter is_atomic_field (class_fields c)) \<and>
     thread_safe c' = (mutexes c' \<noteq> [] \<or> atomic_fields c' \<noteq> []) \<and>
     (mutexes c = [] \<and> atomic_fields c = [] \<longrightarrow>
        map mutex_var_name (mutexes c') = map var_name (filter is_mutex_field (class_fields c)) \<and>
        map atomic_var_name (atomic_fields c') = map var_name (filter is_atomic_field (class_fields c)) \<and>
        thread_safe c' = (\<exists>f \<in> set (class_fields c). is_mutex_field f \<or> is_atomic_field f))"
proof -
  let ?mf = "filter is_mutex_field (class_fields c)"
  let ?af = "filter is_atomic_field (class_fields c)"
  from analyzeClass_fields [OF assms] obtain c' where
    run: "analyzeClass c = Inr c'" and flds: "class_fields c' = class_fields c" and
    m: "mutexes c' = mutexes c @ map mutex_info_of ?mf" and
    a: "atomic_fields c' = atomic_fields c @ map atomic_info_of ?af" and
    safe: "thread_safe c' = (mutexes c' \<noteq> [] \<or> atomic_fields c' \<noteq> [])"
    by blast
  have mn: "map mutex_var_name (mutexes c') = map mutex_var_name (mutexes c) @ map var_name ?mf"
    by (simp only: m map_append mutex_info_of_name)
  have an: "map atomic_var_name (atomic_fields c') =
      map atomic_var_name (atomic_fields c) @ map var_name ?af"
    by (simp only: a map_append atomic_info_of_name)
  have fresh: "mutexes c = [] \<and> atomic_fields c = [] \<longrightarrow>
        map mutex_var_name (mutexes c') = map var_name ?mf \<and>
        map atomic_var_name (atomic_fields c') = map var_name ?af \<and>
        thread_safe c' = (\<exists>f \<in> set (class_fields c). is_mutex_field f \<or> is_atomic_field f)"
  proof
    assume e: "mutexes c = [] \<and> atomic_fields c = []"
    have 1: "map mutex_var_name (mutexes c') = map var_name ?mf"
      using mn e by simp
    have 2: "map atomic_var_name (atomic_fields c') = map var_name ?af"
      using an e by simp
    have "thread_safe c' = (?mf \<noteq> [] \<or> ?af \<noteq> [])"
      using safe m a e by simp
    then have 3: "thread_safe c' = (\<exists>f \<in> set (class_fields c). is_mutex_field f \<or> is_atomic_field f)"
      by (auto simp: filter_empty_conv)
    from 1 2 3 show "map mutex_var_name (mutexes c') = map var_name ?mf \<and>
        map atomic_var_name (atomic_fields c') = map var_name ?af \<and>
        thread_safe c' = (\<exists>f \<in> set (class_fields c). is_mutex_field f \<or> is_atomic_field f)"
      by blast
  qed
  from run flds mn an safe fresh show ?thesis by blast
qed

theorem analyzeClass_inventory_witness:
  "\<exists>c'. analyzeClass counter_class = Inr c' \<and>
     map mutex_var_name (mutexes c') = [''mtx''] \<and>
     map atomic_var_name (atomic_fields c') = [''count''] \<and>
     thread_safe c'"
proof -
  have typed: "\<forall>f \<in> set (class_fields counter_class). var_type f \<noteq> None"
    by (simp add: counter_class_def named_class_def typed_field_def)
  have fresh: "mutexes counter_class = [] \<and> atomic_fields counter_class = []"
    by (simp add: counter_class_def named_class_def)
  have mf: "map var_name (filter is_mutex_field (class_fields counter_class)) = [''mtx'']"
    by (simp add: counter_class_def named_class_def typed_field_def is_mutex_field_def
        new_Type_def)
  have af: "map var_name (filter is_atomic_field (class_fields counter_class)) = [''count'']"
    by (simp add: counter_class_def named_class_def typed_field_def is_atomic_field_def
        new_Type_def)
  have ex: "\<exists>f \<in> set (class_fields counter_class). is_mutex_field f \<or> is_atomic_field f"
    by (simp add: counter_class_def named_class_def typed_field_def is_mutex_field_def
        new_Type_def)
  from analyzeClass_inventory [OF typed] fresh mf af ex show ?thesis
    by metis
qed

section \<open>ExceptionAnalyzer: properties\<close>

lemma takeWhile_neq_append: "c \<notin> set X \<Longrightarrow> takeWhile (\<lambda>x. x \<noteq> c) (X @ c # r) = X"
  by (induction X) auto

lemma dropWhile_neq_append: "c \<notin> set X \<Longrightarrow> dropWhile (\<lambda>x. x \<noteq> c) (X @ c # r) = c # r"
  by (induction X) auto

lemma search_try_catch_match:
  "match_try_catch s = Some r \<Longrightarrow> search_try_catch s = Some r"
  by (cases s) simp_all

lemma detectTryCatchBlocks_loop_None:
  "search_try_catch s = None \<Longrightarrow> detectTryCatchBlocks_loop s blocks = blocks"
  by (subst detectTryCatchBlocks_loop.simps) simp

lemma detectTryCatchBlocks_loop_Some:
  "search_try_catch s = Some (m1, m2, m3, rest) \<Longrightarrow>
   detectTryCatchBlocks_loop s blocks =
     detectTryCatchBlocks_loop rest
       (blocks @ [\<lparr>try_body = m1,
                    catch_clauses = [\<lparr>exception_type = fst (parseCatchParameter m2),
                                       exception_var = snd (parseCatchParameter m2),
                                       handler_body = m3\<rparr>]\<rparr>])"
  by (subst detectTryCatchBlocks_loop.simps) (simp add: case_prod_beta)

lemma detectTryCatchBlocks_loop_append:
  "detectTryCatchBlocks_loop s blocks = blocks @ detectTryCatchBlocks_loop s []"
proof (induction "length s" arbitrary: s blocks rule: less_induct)
  case less
  show ?case
  proof (cases "search_try_catch s")
    case None
    then show ?thesis by (simp add: detectTryCatchBlocks_loop_None)
  next
    case (Some t)
    obtain m1 m2 m3 rest where t: "t = (m1, m2, m3, rest)" by (cases t) auto
    have found: "search_try_catch s = Some (m1, m2, m3, rest)" using Some t by simp
    have shorter: "length rest < length s" using found by (rule search_try_catch_shorter)
    show ?thesis
      by (simp add: detectTryCatchBlocks_loop_Some [OF found] less [OF shorter, of "_ @ [_]"]
          less [OF shorter, of "[_]"])
  qed
qed

lemma match_nested:
  assumes "CHR ''}'' \<notin> set X" and "CHR ''}'' \<notin> set Y"
  shows "match_try_catch (''try { try {'' @ X @ ''} catch(RuntimeError e){'' @ Y @ ''} } catch(...) {}'')
     = Some ('' try {'' @ X, ''RuntimeError e'', Y, '' } catch(...) {}'')"
  using assms
  by (simp add: match_try_catch_def lit_def ws_star_def isspace_def takeWhile_neq_append dropWhile_neq_append)

lemma search_tail: "search_try_catch '' } catch(...) {}'' = None"
  by (simp add: match_try_catch_def lit_def)

lemma parse_RuntimeError: "parseCatchParameter ''RuntimeError e'' = (''RuntimeError'', ''e'')"
  by code_simp

lemma detect_nested:
  assumes "CHR ''}'' \<notin> set X" and "CHR ''}'' \<notin> set Y"
  shows "detectTryCatchBlocks_loop (''try { try {'' @ X @ ''} catch(RuntimeError e){'' @ Y @ ''} } catch(...) {}'') []
     = [\<lparr>try_body = '' try {'' @ X, catch_clauses = [\<lparr>exception_type = ''RuntimeError'', exception_var = ''e'', handler_body = Y\<rparr>]\<rparr>]"
  by (simp only: detectTryCatchBlocks_loop_Some [OF search_try_catch_match [OF match_nested [OF assms]]]
      detectTryCatchBlocks_loop_None [OF search_tail] parse_RuntimeError fst_conv snd_conv append_Nil)

lemma match_single_catch_all:
  assumes "CHR ''}'' \<notin> set X" and "CHR ''}'' \<notin> set Y"
  shows "match_try_catch (''try {'' @ X @ ''} catch(...) {'' @ Y @ ''}'')
     = Some (X, ''...'', Y, [])"
  using assms
  by (simp add: match_try_catch_def lit_def ws_star_def isspace_def takeWhile_neq_append
      dropWhile_neq_append)

lemma parse_catch_all: "parseCatchParameter ''...'' = (''...'', [])"
  by (simp add: parseCatchParameter_def)

lemma search_try_catch_Nil: "search_try_catch [] = None"
  by (simp add: match_try_catch_def lit_def)

lemma detect_single_catch_all:
  assumes "CHR ''}'' \<notin> set X" and "CHR ''}'' \<notin> set Y"
  shows "detectTryCatchBlocks_loop (''try {'' @ X @ ''} catch(...) {'' @ Y @ ''}'') []
     = [\<lparr>try_body = X,
          catch_clauses = [\<lparr>exception_type = ''...'', exception_var = [], handler_body = Y\<rparr>]\<rparr>]"
  by (simp only: detectTryCatchBlocks_loop_Some
        [OF search_try_catch_match [OF match_single_catch_all [OF assms]]]
      detectTryCatchBlocks_loop_None [OF search_try_catch_Nil] parse_catch_all fst_conv snd_conv
      append_Nil)

lemma ExceptionAnalyzer_analyzeFunction_fields:
  "body (ExceptionAnalyzer_analyzeFunction f) = body f"
  "fn_name (ExceptionAnalyzer_analyzeFunction f) = fn_name f"
  "try_catch_blocks (ExceptionAnalyzer_analyzeFunction f) =
     try_catch_blocks f @ detectTryCatchBlocks_loop (body f) []"
  "can_throw (exception_spec (ExceptionAnalyzer_analyzeFunction f)) =
     (\<not> contains_str (fn_name f) ''noexcept'' \<and>
      (can_throw (exception_spec f) \<or> regex_search_throw (body f)))"
  "may_throw (ExceptionAnalyzer_analyzeFunction f) =
     (can_throw (exception_spec (ExceptionAnalyzer_analyzeFunction f)) \<or>
      try_catch_blocks (ExceptionAnalyzer_analyzeFunction f) \<noteq> [] \<or>
      contains_str (body f) ''throw '')"
  using detectTryCatchBlocks_loop_append [of "body f" "try_catch_blocks f"]
  by (simp_all add: ExceptionAnalyzer_analyzeFunction_def detectTryCatchBlocks_def
      detectThrowStatements_def analyzeExceptionSpec_def containsThrowStatement_def Let_def)

subsection \<open>Appending text behind a match\<close>

lemma lit_app: "lit p b = Some r \<Longrightarrow> lit p (b @ v) = Some (r @ v)"
  by (auto simp: lit_def prefix_def split: if_splits)

lemma lit_eq: "lit p s = Some r \<Longrightarrow> s = p @ r"
  by (auto simp: lit_def prefix_def split: if_splits)

lemma run_lit_app:
  assumes "lit p (dropWhile P s) = Some r" and "p \<noteq> []"
  shows "lit p (dropWhile P (s @ v)) = Some (r @ v) \<and> takeWhile P (s @ v) = takeWhile P s"
proof -
  from assms(1) have "prefix p (dropWhile P s)" by (auto simp: lit_def split: if_splits)
  have "dropWhile P s \<noteq> []"
  proof
    assume "dropWhile P s = []"
    with \<open>prefix p (dropWhile P s)\<close> assms(2) show False by simp
  qed
  then obtain x where x: "x \<in> set s" "\<not> P x" by (auto simp: dropWhile_eq_Nil_conv)
  have "dropWhile P (s @ v) = dropWhile P s @ v" using x by (rule dropWhile_append1)
  moreover have "takeWhile P (s @ v) = takeWhile P s" using x by (rule takeWhile_append1)
  ultimately show ?thesis using lit_app [OF assms(1)] by simp
qed

lemma match_try_catch_steps:
  assumes "match_try_catch s = Some (a, b, c, r)"
  obtains s1 s2 s3 s4 s5 s6 s7 where
    "lit ''try'' s = Some s1"
    "lit ''{'' (dropWhile isspace s1) = Some s2"
    "lit ''}'' (dropWhile (\<lambda>c. c \<noteq> CHR ''}'') s2) = Some s3"
    "lit ''catch'' (dropWhile isspace s3) = Some s4"
    "lit ''('' (dropWhile isspace s4) = Some s5"
    "takeWhile (\<lambda>c. c \<noteq> CHR '')'') s5 \<noteq> []"
    "lit '')'' (dropWhile (\<lambda>c. c \<noteq> CHR '')'') s5) = Some s6"
    "lit ''{'' (dropWhile isspace s6) = Some s7"
    "lit ''}'' (dropWhile (\<lambda>c. c \<noteq> CHR ''}'') s7) = Some r"
    "a = takeWhile (\<lambda>c. c \<noteq> CHR ''}'') s2"
    "b = takeWhile (\<lambda>c. c \<noteq> CHR '')'') s5"
    "c = takeWhile (\<lambda>c. c \<noteq> CHR ''}'') s7"
  using assms
  by (auto simp: match_try_catch_def ws_star_def split: bind_splits if_splits)

lemma match_try_catch_stepsI:
  assumes "lit ''try'' s = Some s1"
    "lit ''{'' (dropWhile isspace s1) = Some s2"
    "lit ''}'' (dropWhile (\<lambda>c. c \<noteq> CHR ''}'') s2) = Some s3"
    "lit ''catch'' (dropWhile isspace s3) = Some s4"
    "lit ''('' (dropWhile isspace s4) = Some s5"
    "takeWhile (\<lambda>c. c \<noteq> CHR '')'') s5 \<noteq> []"
    "lit '')'' (dropWhile (\<lambda>c. c \<noteq> CHR '')'') s5) = Some s6"
    "lit ''{'' (dropWhile isspace s6) = Some s7"
    "lit ''}'' (dropWhile (\<lambda>c. c \<noteq> CHR ''}'') s7) = Some r"
  shows "match_try_catch s =
     Some (takeWhile (\<lambda>c. c \<noteq> CHR ''}'') s2, takeWhile (\<lambda>c. c \<noteq> CHR '')'') s5,
           takeWhile (\<lambda>c. c \<noteq> CHR ''}'') s7, r)"
  using assms by (simp add: match_try_catch_def ws_star_def)

lemma match_try_catch_app:
  assumes "match_try_catch s = Some (a, b, c, r)"
  shows "match_try_catch (s @ v) = Some (a, b, c, r @ v)"
proof -
  from assms obtain s1 s2 s3 s4 s5 s6 s7 where st:
    "lit ''try'' s = Some s1"
    "lit ''{'' (dropWhile isspace s1) = Some s2"
    "lit ''}'' (dropWhile (\<lambda>c. c \<noteq> CHR ''}'') s2) = Some s3"
    "lit ''catch'' (dropWhile isspace s3) = Some s4"
    "lit ''('' (dropWhile isspace s4) = Some s5"
    "takeWhile (\<lambda>c. c \<noteq> CHR '')'') s5 \<noteq> []"
    "lit '')'' (dropWhile (\<lambda>c. c \<noteq> CHR '')'') s5) = Some s6"
    "lit ''{'' (dropWhile isspace s6) = Some s7"
    "lit ''}'' (dropWhile (\<lambda>c. c \<noteq> CHR ''}'') s7) = Some r"
    and caps: "a = takeWhile (\<lambda>c. c \<noteq> CHR ''}'') s2"
    "b = takeWhile (\<lambda>c. c \<noteq> CHR '')'') s5"
    "c = takeWhile (\<lambda>c. c \<noteq> CHR ''}'') s7"
    by (rule match_try_catch_steps)
  have 1: "lit ''try'' (s @ v) = Some (s1 @ v)" using st(1) by (rule lit_app)
  have 2: "lit ''{'' (dropWhile isspace (s1 @ v)) = Some (s2 @ v)"
    using run_lit_app [OF st(2)] by simp
  have 3: "lit ''}'' (dropWhile (\<lambda>c. c \<noteq> CHR ''}'') (s2 @ v)) = Some (s3 @ v)"
    and c3: "takeWhile (\<lambda>c. c \<noteq> CHR ''}'') (s2 @ v) = takeWhile (\<lambda>c. c \<noteq> CHR ''}'') s2"
    using run_lit_app [OF st(3)] by simp_all
  have 4: "lit ''catch'' (dropWhile isspace (s3 @ v)) = Some (s4 @ v)"
    using run_lit_app [OF st(4)] by simp
  have 5: "lit ''('' (dropWhile isspace (s4 @ v)) = Some (s5 @ v)"
    using run_lit_app [OF st(5)] by simp
  have 7: "lit '')'' (dropWhile (\<lambda>c. c \<noteq> CHR '')'') (s5 @ v)) = Some (s6 @ v)"
    and c7: "takeWhile (\<lambda>c. c \<noteq> CHR '')'') (s5 @ v) = takeWhile (\<lambda>c. c \<noteq> CHR '')'') s5"
    using run_lit_app [OF st(7)] by simp_all
  have 6: "takeWhile (\<lambda>c. c \<noteq> CHR '')'') (s5 @ v) \<noteq> []" using st(6) c7 by simp
  have 8: "lit ''{'' (dropWhile isspace (s6 @ v)) = Some (s7 @ v)"
    using run_lit_app [OF st(8)] by simp
  have 9: "lit ''}'' (dropWhile (\<lambda>c. c \<noteq> CHR ''}'') (s7 @ v)) = Some (r @ v)"
    and c9: "takeWhile (\<lambda>c. c \<noteq> CHR ''}'') (s7 @ v) = takeWhile (\<lambda>c. c \<noteq> CHR ''}'') s7"
    using run_lit_app [OF st(9)] by simp_all
  show ?thesis
    using match_try_catch_stepsI [OF 1 2 3 4 5 6 7 8 9] by (simp only: c3 c7 c9 caps)
qed

subsection \<open>A match that ends before a place\<close>

lemma scan_reaches_Nil: "scan_reaches m rem [] rest"
  by (subst scan_reaches.simps) simp

lemma scan_reaches_None:
  "m (c # p @ rest) = None \<Longrightarrow> scan_reaches m rem (c # p) rest = scan_reaches m rem p rest"
  by (subst scan_reaches.simps) simp

lemma scan_reaches_Some:
  "m (c # p @ rest) = Some y \<Longrightarrow>
   scan_reaches m rem (c # p) rest =
     (length rest \<le> length (rem y) \<and> length (rem y) < length (c # p @ rest) \<and>
      scan_reaches m rem (take (length (rem y) - length rest) (rem y)) rest)"
  by (subst scan_reaches.simps) auto

lemma prefix_within:
  assumes "prefix p (s @ v)" and "length p \<le> length s"
  shows "prefix p s"
proof -
  from assms(1) have "p = take (length p) (s @ v)"
    by (metis append_eq_conv_conj prefix_def)
  also have "\<dots> = take (length p) s" using assms(2) by simp
  finally show ?thesis by (metis take_is_prefix)
qed

lemma lit_local:
  assumes "lit p (s @ v) = Some r'" and "length v \<le> length r'"
  shows "\<exists>r. r' = r @ v \<and> lit p s = Some r"
proof -
  from assms(1) have pre: "prefix p (s @ v)" and r': "r' = drop (length p) (s @ v)"
    by (auto simp: lit_def split: if_splits)
  from lit_length [OF assms(1)] assms(2) have len: "length p \<le> length s" by simp
  from pre len have "prefix p s" by (rule prefix_within)
  then have "lit p s = Some (drop (length p) s)" by (simp add: lit_def)
  moreover have "r' = drop (length p) s @ v" using r' len by simp
  ultimately show ?thesis by blast
qed

lemma run_local:
  assumes "length v < length (dropWhile P (s @ v))"
  shows "dropWhile P (s @ v) = dropWhile P s @ v \<and> takeWhile P (s @ v) = takeWhile P s"
proof (cases "\<forall>x \<in> set s. P x")
  case True
  then have "dropWhile P (s @ v) = dropWhile P v" by (simp add: dropWhile_append2)
  with assms have "length v < length (dropWhile P v)" by simp
  with length_dropWhile_le [of P v] show ?thesis by simp
next
  case False
  then obtain x where x: "x \<in> set s" "\<not> P x" by blast
  have "dropWhile P (s @ v) = dropWhile P s @ v" using x by (rule dropWhile_append1)
  moreover have "takeWhile P (s @ v) = takeWhile P s" using x by (rule takeWhile_append1)
  ultimately show ?thesis by simp
qed

lemma run_lit_local:
  assumes "lit p (dropWhile P (s @ v)) = Some r'" and "length v \<le> length r'" and "p \<noteq> []"
  shows "\<exists>r. r' = r @ v \<and> lit p (dropWhile P s) = Some r \<and>
     takeWhile P (s @ v) = takeWhile P s"
proof -
  from lit_length [OF assms(1)] assms(2,3)
  have "length v < length (dropWhile P (s @ v))" by (cases p) auto
  from run_local [OF this]
  have d: "dropWhile P (s @ v) = dropWhile P s @ v"
    and t: "takeWhile P (s @ v) = takeWhile P s" by simp_all
  from assms(1) d have "lit p (dropWhile P s @ v) = Some r'" by simp
  from lit_local [OF this assms(2)] t show ?thesis by blast
qed

lemma run_lit_le: "lit p (dropWhile P x) = Some y \<Longrightarrow> length y \<le> length x"
  using lit_le [of p "dropWhile P x" y] length_dropWhile_le [of P x] by simp

lemma match_try_catch_local:
  assumes "match_try_catch (s @ v) = Some (a, b, c, r')" and "length v \<le> length r'"
  shows "\<exists>r. r' = r @ v \<and> match_try_catch s = Some (a, b, c, r)"
proof -
  from assms(1) obtain t1 t2 t3 t4 t5 t6 t7 where st:
    "lit ''try'' (s @ v) = Some t1"
    "lit ''{'' (dropWhile isspace t1) = Some t2"
    "lit ''}'' (dropWhile (\<lambda>c. c \<noteq> CHR ''}'') t2) = Some t3"
    "lit ''catch'' (dropWhile isspace t3) = Some t4"
    "lit ''('' (dropWhile isspace t4) = Some t5"
    "takeWhile (\<lambda>c. c \<noteq> CHR '')'') t5 \<noteq> []"
    "lit '')'' (dropWhile (\<lambda>c. c \<noteq> CHR '')'') t5) = Some t6"
    "lit ''{'' (dropWhile isspace t6) = Some t7"
    "lit ''}'' (dropWhile (\<lambda>c. c \<noteq> CHR ''}'') t7) = Some r'"
    and caps: "a = takeWhile (\<lambda>c. c \<noteq> CHR ''}'') t2"
    "b = takeWhile (\<lambda>c. c \<noteq> CHR '')'') t5"
    "c = takeWhile (\<lambda>c. c \<noteq> CHR ''}'') t7"
    by (rule match_try_catch_steps)
  have l7: "length v \<le> length t7" using run_lit_le [OF st(9)] assms(2) by simp
  have l6: "length v \<le> length t6" using run_lit_le [OF st(8)] l7 by simp
  have l5: "length v \<le> length t5" using run_lit_le [OF st(7)] l6 by simp
  have l4: "length v \<le> length t4" using run_lit_le [OF st(5)] l5 by simp
  have l3: "length v \<le> length t3" using run_lit_le [OF st(4)] l4 by simp
  have l2: "length v \<le> length t2" using run_lit_le [OF st(3)] l3 by simp
  have l1: "length v \<le> length t1" using run_lit_le [OF st(2)] l2 by simp
  from lit_local [OF st(1) l1] obtain s1 where
    1: "t1 = s1 @ v" "lit ''try'' s = Some s1" by blast
  from run_lit_local [OF st(2) [unfolded 1(1)] l2] obtain s2 where
    2: "t2 = s2 @ v" "lit ''{'' (dropWhile isspace s1) = Some s2" by auto
  from run_lit_local [OF st(3) [unfolded 2(1)] l3] obtain s3 where
    3: "t3 = s3 @ v" "lit ''}'' (dropWhile (\<lambda>c. c \<noteq> CHR ''}'') s2) = Some s3"
      "takeWhile (\<lambda>c. c \<noteq> CHR ''}'') (s2 @ v) = takeWhile (\<lambda>c. c \<noteq> CHR ''}'') s2" by auto
  from run_lit_local [OF st(4) [unfolded 3(1)] l4] obtain s4 where
    4: "t4 = s4 @ v" "lit ''catch'' (dropWhile isspace s3) = Some s4" by auto
  from run_lit_local [OF st(5) [unfolded 4(1)] l5] obtain s5 where
    5: "t5 = s5 @ v" "lit ''('' (dropWhile isspace s4) = Some s5" by auto
  from run_lit_local [OF st(7) [unfolded 5(1)] l6] obtain s6 where
    6: "t6 = s6 @ v" "lit '')'' (dropWhile (\<lambda>c. c \<noteq> CHR '')'') s5) = Some s6"
      "takeWhile (\<lambda>c. c \<noteq> CHR '')'') (s5 @ v) = takeWhile (\<lambda>c. c \<noteq> CHR '')'') s5" by auto
  from run_lit_local [OF st(8) [unfolded 6(1)] l7] obtain s7 where
    7: "t7 = s7 @ v" "lit ''{'' (dropWhile isspace s6) = Some s7" by auto
  from run_lit_local [OF st(9) [unfolded 7(1)] assms(2)] obtain r where
    8: "r' = r @ v" "lit ''}'' (dropWhile (\<lambda>c. c \<noteq> CHR ''}'') s7) = Some r"
      "takeWhile (\<lambda>c. c \<noteq> CHR ''}'') (s7 @ v) = takeWhile (\<lambda>c. c \<noteq> CHR ''}'') s7" by auto
  have ne: "takeWhile (\<lambda>c. c \<noteq> CHR '')'') s5 \<noteq> []" using st(6) 5(1) 6(3) by simp
  have "match_try_catch s = Some (a, b, c, r)"
    using match_try_catch_stepsI [OF 1(2) 2(2) 3(2) 4(2) 5(2) ne 6(2) 7(2) 8(2)]
    by (simp only: caps 2(1) 5(1) 7(1) 3(3) 6(3) 8(3))
  with 8(1) show ?thesis by blast
qed

subsection \<open>The scan of a text in two parts\<close>

lemma detectTryCatchBlocks_loop_Cons_None:
  assumes "match_try_catch (c # cs) = None"
  shows "detectTryCatchBlocks_loop (c # cs) blocks = detectTryCatchBlocks_loop cs blocks"
  using assms
  by (subst detectTryCatchBlocks_loop.simps, subst (2) detectTryCatchBlocks_loop.simps) simp

lemma detectTryCatchBlocks_loop_reach:
  assumes "scan_reaches match_try_catch try_catch_rest pre rest"
  shows "detectTryCatchBlocks_loop (pre @ rest) blocks =
     detectTryCatchBlocks_loop rest (detectTryCatchBlocks_loop pre blocks)"
  using assms
proof (induction "length pre" arbitrary: pre blocks rule: less_induct)
  case less
  show ?case
  proof (cases pre)
    case Nil
    then show ?thesis
      by (simp add: detectTryCatchBlocks_loop_None [OF search_try_catch_Nil])
  next
    case (Cons c p)
    show ?thesis
    proof (cases "match_try_catch (pre @ rest)")
      case None
      then have n2: "match_try_catch (c # p @ rest) = None" using Cons by simp
      have n1: "match_try_catch pre = None"
      proof (cases "match_try_catch pre")
        case (Some t)
        obtain m1 m2 m3 r where "match_try_catch pre = Some (m1, m2, m3, r)"
          using Some by (cases t) auto
        from match_try_catch_app [OF this, of rest] None show ?thesis by simp
      qed
      have sr: "scan_reaches match_try_catch try_catch_rest p rest"
        using less.prems Cons
          scan_reaches_None [of match_try_catch c p rest try_catch_rest, OF n2] by simp
      have "detectTryCatchBlocks_loop (pre @ rest) blocks =
          detectTryCatchBlocks_loop (p @ rest) blocks"
        using detectTryCatchBlocks_loop_Cons_None [OF n2] Cons by simp
      also have "\<dots> = detectTryCatchBlocks_loop rest (detectTryCatchBlocks_loop p blocks)"
        using less.hyps [OF _ sr] Cons by simp
      also have "detectTryCatchBlocks_loop p blocks = detectTryCatchBlocks_loop pre blocks"
        using detectTryCatchBlocks_loop_Cons_None [of c p blocks] n1 Cons by simp
      finally show ?thesis .
    next
      case (Some t)
      obtain m1 m2 m3 r' where t: "match_try_catch (pre @ rest) = Some (m1, m2, m3, r')"
        using Some by (cases t) auto
      then have t2: "match_try_catch (c # p @ rest) = Some (m1, m2, m3, r')" using Cons by simp
      from less.prems Cons
        scan_reaches_Some [of match_try_catch c p rest "(m1, m2, m3, r')" try_catch_rest, OF t2]
      have len: "length rest \<le> length r'"
        and sr: "scan_reaches match_try_catch try_catch_rest (take (length r' - length rest) r') rest"
        by (simp_all add: try_catch_rest_def)
      from match_try_catch_local [OF t len] obtain r where
        r: "r' = r @ rest" "match_try_catch pre = Some (m1, m2, m3, r)" by blast
      have tk: "take (length r' - length rest) r' = r" using r(1) by simp
      have shorter: "length r < length pre" using r(2) by (rule match_try_catch_shorter)
      have f1: "search_try_catch pre = Some (m1, m2, m3, r)"
        using r(2) by (rule search_try_catch_match)
      have f2: "search_try_catch (pre @ rest) = Some (m1, m2, m3, r @ rest)"
        using t r(1) by (intro search_try_catch_match) simp
      show ?thesis
        by (simp only: detectTryCatchBlocks_loop_Some [OF f1] detectTryCatchBlocks_loop_Some [OF f2]
            less.hyps [OF shorter sr [unfolded tk]])
    qed
  qed
qed

lemma detect_reached:
  assumes sr: "scan_reaches match_try_catch try_catch_rest pre (T @ post)"
    and m: "match_try_catch T = Some (m1, m2, m3, R)"
    and tail: "scan_reaches match_try_catch try_catch_rest R post"
    and none: "search_try_catch R = None"
  shows "detectTryCatchBlocks_loop (pre @ T @ post) [] =
     detectTryCatchBlocks_loop pre [] @
     [\<lparr>try_body = m1,
        catch_clauses = [\<lparr>exception_type = fst (parseCatchParameter m2),
                           exception_var = snd (parseCatchParameter m2),
                           handler_body = m3\<rparr>]\<rparr>] @
     detectTryCatchBlocks_loop post []"
proof -
  let ?blk = "\<lparr>try_body = m1,
        catch_clauses = [\<lparr>exception_type = fst (parseCatchParameter m2),
                           exception_var = snd (parseCatchParameter m2),
                           handler_body = m3\<rparr>]\<rparr>"
  have f: "search_try_catch (T @ post) = Some (m1, m2, m3, R @ post)"
    using match_try_catch_app [OF m] by (rule search_try_catch_match)
  have "detectTryCatchBlocks_loop (pre @ T @ post) [] =
      detectTryCatchBlocks_loop (T @ post) (detectTryCatchBlocks_loop pre [])"
    using sr by (rule detectTryCatchBlocks_loop_reach)
  also have "\<dots> = detectTryCatchBlocks_loop (R @ post) (detectTryCatchBlocks_loop pre [] @ [?blk])"
    by (rule detectTryCatchBlocks_loop_Some [OF f])
  also have "\<dots> = detectTryCatchBlocks_loop post
      (detectTryCatchBlocks_loop R (detectTryCatchBlocks_loop pre [] @ [?blk]))"
    using tail by (rule detectTryCatchBlocks_loop_reach)
  also have "\<dots> = detectTryCatchBlocks_loop post (detectTryCatchBlocks_loop pre [] @ [?blk])"
    by (simp only: detectTryCatchBlocks_loop_None [OF none])
  also have "\<dots> = (detectTryCatchBlocks_loop pre [] @ [?blk]) @ detectTryCatchBlocks_loop post []"
    by (rule detectTryCatchBlocks_loop_append)
  finally show ?thesis by simp
qed

lemma scan_reaches_tail:
  "scan_reaches match_try_catch try_catch_rest '' } catch(...) {}'' post"
  by (simp add: scan_reaches_None scan_reaches_Nil match_try_catch_def lit_def)

lemma detect_nested_reached:
  assumes "CHR ''}'' \<notin> set X" and "CHR ''}'' \<notin> set Y"
    and "scan_reaches match_try_catch try_catch_rest pre
      (''try { try {'' @ X @ ''} catch(RuntimeError e){'' @ Y @ ''} } catch(...) {}'' @ post)"
  shows "detectTryCatchBlocks_loop
      (pre @ ''try { try {'' @ X @ ''} catch(RuntimeError e){'' @ Y @ ''} } catch(...) {}'' @ post) []
     = detectTryCatchBlocks_loop pre [] @
       [\<lparr>try_body = '' try {'' @ X,
          catch_clauses = [\<lparr>exception_type = ''RuntimeError'', exception_var = ''e'',
                             handler_body = Y\<rparr>]\<rparr>] @
       detectTryCatchBlocks_loop post []"
proof -
  let ?T = "''try { try {'' @ X @ ''} catch(RuntimeError e){'' @ Y @ ''} } catch(...) {}''"
  have sr: "scan_reaches match_try_catch try_catch_rest pre (?T @ post)" using assms(3) by simp
  from detect_reached [OF sr match_nested [OF assms(1,2)] scan_reaches_tail search_tail]
  show ?thesis by (simp add: parse_RuntimeError)
qed

lemma detect_single_reached:
  assumes "CHR ''}'' \<notin> set X" and "CHR ''}'' \<notin> set Y"
    and "scan_reaches match_try_catch try_catch_rest pre
      (''try {'' @ X @ ''} catch(...) {'' @ Y @ ''}'' @ post)"
  shows "detectTryCatchBlocks_loop (pre @ ''try {'' @ X @ ''} catch(...) {'' @ Y @ ''}'' @ post) []
     = detectTryCatchBlocks_loop pre [] @
       [\<lparr>try_body = X,
          catch_clauses = [\<lparr>exception_type = ''...'', exception_var = [], handler_body = Y\<rparr>]\<rparr>] @
       detectTryCatchBlocks_loop post []"
proof -
  let ?T = "''try {'' @ X @ ''} catch(...) {'' @ Y @ ''}''"
  have sr: "scan_reaches match_try_catch try_catch_rest pre (?T @ post)" using assms(3) by simp
  from detect_reached [OF sr match_single_catch_all [OF assms(1,2)] scan_reaches_Nil
      search_try_catch_Nil]
  show ?thesis by (simp add: parse_catch_all)
qed

subsection \<open>Nested try/catch\<close>

text \<open>
  C1, as stated, fails. On the nested text of the claim the pattern matches at the outer
  \<^verbatim>\<open>try\<close>: its first capture runs up to the first closing brace, which is the one of the
  inner block, and the catch clause that follows is the inner one. After the match only
  \<^verbatim>\<open> } catch(...) {}\<close> is left, which holds no \<^verbatim>\<open>try\<close>. One catch clause is recorded, not
  two, and no clause has the type \<^verbatim>\<open>*\<close>. And where the nested text stands in the handler
  of an earlier try/catch, the match of that earlier one runs into it, up to its first
  closing brace, and no clause of the nested text is recorded at all.
\<close>

theorem nested_try_catch_single_clause:
  "map catch_clauses
     (try_catch_blocks
        (ExceptionAnalyzer_analyzeFunction
           (named_function ''f''
              ''try { try {...} catch(RuntimeError e){ rethrow } } catch(...) {}'')))
   = [[\<lparr>exception_type = ''RuntimeError'', exception_var = ''e'',
        handler_body = '' rethrow ''\<rparr>]] \<and>
   map catch_clauses
     (try_catch_blocks
        (ExceptionAnalyzer_analyzeFunction
           (named_function ''g''
              ''try { a(); } catch(E x) { try { try {...} catch(RuntimeError e){ rethrow } } catch(...) {} }'')))
   = [[\<lparr>exception_type = ''E'', exception_var = ''x'',
        handler_body = '' try { try {...''\<rparr>]]"
proof -
  have 1: "detectTryCatchBlocks_loop
      (''try { try {'' @ ''...'' @ ''} catch(RuntimeError e){'' @ '' rethrow '' @ ''} } catch(...) {}'') []
    = [\<lparr>try_body = '' try {'' @ ''...'',
         catch_clauses = [\<lparr>exception_type = ''RuntimeError'', exception_var = ''e'',
                            handler_body = '' rethrow ''\<rparr>]\<rparr>]"
    by (rule detect_nested) simp_all
  have m: "match_try_catch
      (''try {'' @ '' a(); '' @ ''} catch(E x) {'' @ '' try { try {...'' @
       ''} catch(RuntimeError e){ rethrow } } catch(...) {} }'')
    = Some ('' a(); '', ''E x'', '' try { try {...'',
            '' catch(RuntimeError e){ rethrow } } catch(...) {} }'')"
    by (simp add: match_try_catch_def lit_def ws_star_def isspace_def)
  have n: "search_try_catch '' catch(RuntimeError e){ rethrow } } catch(...) {} }'' = None"
    by (simp add: match_try_catch_def lit_def)
  have p: "parseCatchParameter ''E x'' = (''E'', ''x'')"
    by code_simp
  have 2: "detectTryCatchBlocks_loop
      ''try { a(); } catch(E x) { try { try {...} catch(RuntimeError e){ rethrow } } catch(...) {} }'' []
    = [\<lparr>try_body = '' a(); '',
         catch_clauses = [\<lparr>exception_type = ''E'', exception_var = ''x'',
                            handler_body = '' try { try {...''\<rparr>]\<rparr>]"
    using detectTryCatchBlocks_loop_Some [OF search_try_catch_match [OF m], of "[]"]
    by (simp add: detectTryCatchBlocks_loop_None [OF n] p)
  from 1 2 show ?thesis
    by (simp add: ExceptionAnalyzer_analyzeFunction_fields named_function_def)
qed

text \<open>
  C1, amended. Take a body that contains the nested text
  \<^verbatim>\<open>try { try {X} catch(RuntimeError e){Y} } catch(...) {}\<close>, with no closing brace in \<open>X\<close>
  and \<open>Y\<close>, between any texts \<open>pre\<close> and \<open>post\<close>, where the search loop comes to stand at the
  start of the nested text: no match it takes before runs into it. To the blocks it held,
  the analyzer appends the blocks of \<open>pre\<close>, then one block for the nested text, then the
  blocks of \<open>post\<close>. The block of the nested text has one catch clause: its type is
  \<^verbatim>\<open>RuntimeError\<close>, its bound name \<^verbatim>\<open>e\<close>, its handler \<open>Y\<close>; the protected text recorded is
  \<^verbatim>\<open> try {X\<close>, and the outer catch-all clause is not recorded. A catch-all clause that is
  recorded, as for the single-level text \<^verbatim>\<open>try {X} catch(...) {Y}\<close> in the same place, has the
  exception type \<^verbatim>\<open>...\<close> and no bound name, which is what \<open>parseCatchParameter\<close> returns for
  the ellipsis.
\<close>

theorem nested_try_catch_detected:
  assumes "CHR ''}'' \<notin> set X" and "CHR ''}'' \<notin> set Y"
    and "body f =
      pre @ ''try { try {'' @ X @ ''} catch(RuntimeError e){'' @ Y @ ''} } catch(...) {}'' @ post"
    and "scan_reaches match_try_catch try_catch_rest pre
      (''try { try {'' @ X @ ''} catch(RuntimeError e){'' @ Y @ ''} } catch(...) {}'' @ post)"
    and "body g = pre @ ''try {'' @ X @ ''} catch(...) {'' @ Y @ ''}'' @ post"
    and "scan_reaches match_try_catch try_catch_rest pre
      (''try {'' @ X @ ''} catch(...) {'' @ Y @ ''}'' @ post)"
  shows "try_catch_blocks (ExceptionAnalyzer_analyzeFunction f) =
       try_catch_blocks f @ detectTryCatchBlocks_loop pre [] @
       [\<lparr>try_body = '' try {'' @ X,
          catch_clauses = [\<lparr>exception_type = ''RuntimeError'', exception_var = ''e'',
                             handler_body = Y\<rparr>]\<rparr>] @
       detectTryCatchBlocks_loop post [] \<and>
     try_catch_blocks (ExceptionAnalyzer_analyzeFunction g) =
       try_catch_blocks g @ detectTryCatchBlocks_loop pre [] @
       [\<lparr>try_body = X,
          catch_clauses = [\<lparr>exception_type = ''...'', exception_var = [],
                             handler_body = Y\<rparr>]\<rparr>] @
       detectTryCatchBlocks_loop post [] \<and>
     parseCatchParameter ''...'' = (''...'', [])"
  by (simp only: ExceptionAnalyzer_analyzeFunction_fields assms(3,5)
      detect_nested_reached [OF assms(1,2,4)] detect_single_reached [OF assms(1,2,6)]
      parse_catch_all simp_thms)

theorem nested_try_catch_detected_witness:
  "try_catch_blocks
     (ExceptionAnalyzer_analyzeFunction
        (named_function ''f''
           ''try { a(); } catch(E x) { } try { try {...} catch(RuntimeError e){ rethrow } } catch(...) {} done();'')) =
     [\<lparr>try_body = '' a(); '',
        catch_clauses = [\<lparr>exception_type = ''E'', exception_var = ''x'', handler_body = '' ''\<rparr>]\<rparr>,
      \<lparr>try_body = '' try {...'',
        catch_clauses = [\<lparr>exception_type = ''RuntimeError'', exception_var = ''e'',
                           handler_body = '' rethrow ''\<rparr>]\<rparr>] \<and>
   try_catch_blocks
     (ExceptionAnalyzer_analyzeFunction
        (named_function ''g''
           ''try { a(); } catch(E x) { } try {...} catch(...) { rethrow } done();'')) =
     [\<lparr>try_body = '' a(); '',
        catch_clauses = [\<lparr>exception_type = ''E'', exception_var = ''x'', handler_body = '' ''\<rparr>]\<rparr>,
      \<lparr>try_body = ''...'',
        catch_clauses = [\<lparr>exception_type = ''...'', exception_var = [],
                           handler_body = '' rethrow ''\<rparr>]\<rparr>]"
proof -
  let ?pre = "''try { a(); } catch(E x) { } ''"
  let ?post = "'' done();''"
  let ?f = "named_function ''f''
      ''try { a(); } catch(E x) { } try { try {...} catch(RuntimeError e){ rethrow } } catch(...) {} done();''"
  let ?g = "named_function ''g''
      ''try { a(); } catch(E x) { } try {...} catch(...) { rethrow } done();''"
  have x: "CHR ''}'' \<notin> set ''...''" and y: "CHR ''}'' \<notin> set '' rethrow ''" by simp_all
  have bf: "body ?f =
      ?pre @ ''try { try {'' @ ''...'' @ ''} catch(RuntimeError e){'' @ '' rethrow '' @
      ''} } catch(...) {}'' @ ?post"
    by (simp add: named_function_def)
  have bg: "body ?g = ?pre @ ''try {'' @ ''...'' @ ''} catch(...) {'' @ '' rethrow '' @ ''}'' @ ?post"
    by (simp add: named_function_def)
  have ef: "scan_reaches match_try_catch try_catch_rest ?pre
      (''try { try {'' @ ''...'' @ ''} catch(RuntimeError e){'' @ '' rethrow '' @
       ''} } catch(...) {}'' @ ?post)"
    by code_simp
  have eg: "scan_reaches match_try_catch try_catch_rest ?pre
      (''try {'' @ ''...'' @ ''} catch(...) {'' @ '' rethrow '' @ ''}'' @ ?post)"
    by code_simp
  have dpre: "detectTryCatchBlocks_loop ?pre [] =
      [\<lparr>try_body = '' a(); '',
         catch_clauses = [\<lparr>exception_type = ''E'', exception_var = ''x'', handler_body = '' ''\<rparr>]\<rparr>]"
    by code_simp
  have dpost: "detectTryCatchBlocks_loop ?post [] = []"
    by code_simp
  have old: "try_catch_blocks ?f = []" "try_catch_blocks ?g = []"
    by (simp_all add: named_function_def)
  from nested_try_catch_detected [OF x y bf ef bg eg]
  show ?thesis
    unfolding dpre dpost old by simp
qed

subsection \<open>The may-throw flag\<close>

lemma throw_head:
  "(case lit ''throw'' s of Some (d # r) \<Rightarrow> isspace d | _ \<Rightarrow> False) =
   (\<exists>w. isspace w \<and> prefix (''throw'' @ [w]) s)" (is "?L = ?R")
proof
  assume ?L
  then obtain d r where l: "lit ''throw'' s = Some (d # r)" and d: "isspace d"
    by (auto split: option.splits list.splits)
  from lit_eq [OF l] have "s = (''throw'' @ [d]) @ r" by simp
  then have "prefix (''throw'' @ [d]) s" by (rule prefixI)
  with d show ?R by blast
next
  assume ?R
  then obtain w z where w: "isspace w" and s: "s = (''throw'' @ [w]) @ z"
    by (auto simp: prefix_def)
  from s have "lit ''throw'' s = Some (w # z)" by (simp add: lit_def)
  with w show ?L by simp
qed

lemma regex_search_throw_iff:
  "regex_search_throw b = (\<exists>w. isspace w \<and> sublist (''throw'' @ [w]) b)"
proof (induction b)
  case Nil
  show ?case by simp
next
  case (Cons c cs)
  have "regex_search_throw (c # cs) =
      ((\<exists>w. isspace w \<and> prefix (''throw'' @ [w]) (c # cs)) \<or>
       (\<exists>w. isspace w \<and> sublist (''throw'' @ [w]) cs))"
    by (simp only: regex_search_throw.simps throw_head Cons.IH)
  also have "\<dots> = (\<exists>w. isspace w \<and> sublist (''throw'' @ [w]) (c # cs))"
    by (auto simp: sublist_Cons_right)
  finally show ?case .
qed

lemma run_lit_eq: "lit p (dropWhile P s) = Some r \<Longrightarrow> s = takeWhile P s @ p @ r"
  using lit_eq [of p "dropWhile P s" r] takeWhile_dropWhile_id [of P s] by simp

lemma list_all_takeWhile: "list_all P (takeWhile P s)"
  by (auto simp: list_all_iff dest: set_takeWhileD)

lemma notin_takeWhile: "c \<notin> set (takeWhile (\<lambda>x. x \<noteq> c) s)"
  by (auto dest: set_takeWhileD)

lemma match_try_catch_text:
  assumes "match_try_catch b = Some (m1, m2, m3, r)"
  shows "\<exists>t. try_catch_text t \<and> b = t @ r"
proof -
  from assms obtain s1 s2 s3 s4 s5 s6 s7 where st:
    "lit ''try'' b = Some s1"
    "lit ''{'' (dropWhile isspace s1) = Some s2"
    "lit ''}'' (dropWhile (\<lambda>c. c \<noteq> CHR ''}'') s2) = Some s3"
    "lit ''catch'' (dropWhile isspace s3) = Some s4"
    "lit ''('' (dropWhile isspace s4) = Some s5"
    "takeWhile (\<lambda>c. c \<noteq> CHR '')'') s5 \<noteq> []"
    "lit '')'' (dropWhile (\<lambda>c. c \<noteq> CHR '')'') s5) = Some s6"
    "lit ''{'' (dropWhile isspace s6) = Some s7"
    "lit ''}'' (dropWhile (\<lambda>c. c \<noteq> CHR ''}'') s7) = Some r"
    by (rule match_try_catch_steps)
  let ?w1 = "takeWhile isspace s1" and ?A = "takeWhile (\<lambda>c. c \<noteq> CHR ''}'') s2"
  let ?w2 = "takeWhile isspace s3" and ?w3 = "takeWhile isspace s4"
  let ?B = "takeWhile (\<lambda>c. c \<noteq> CHR '')'') s5" and ?w4 = "takeWhile isspace s6"
  let ?C = "takeWhile (\<lambda>c. c \<noteq> CHR ''}'') s7"
  let ?t = "''try'' @ ?w1 @ ''{'' @ ?A @ ''}'' @ ?w2 @ ''catch'' @ ?w3 @ ''('' @ ?B @ '')'' @ ?w4 @
      ''{'' @ ?C @ ''}''"
  have e1: "b = ''try'' @ s1" using st(1) by (rule lit_eq)
  have e2: "s1 = ?w1 @ ''{'' @ s2" using st(2) by (rule run_lit_eq)
  have e3: "s2 = ?A @ ''}'' @ s3" using st(3) by (rule run_lit_eq)
  have e4: "s3 = ?w2 @ ''catch'' @ s4" using st(4) by (rule run_lit_eq)
  have e5: "s4 = ?w3 @ ''('' @ s5" using st(5) by (rule run_lit_eq)
  have e6: "s5 = ?B @ '')'' @ s6" using st(7) by (rule run_lit_eq)
  have e7: "s6 = ?w4 @ ''{'' @ s7" using st(8) by (rule run_lit_eq)
  have e8: "s7 = ?C @ ''}'' @ r" using st(9) by (rule run_lit_eq)
  have "b = ''try'' @ ?w1 @ ''{'' @ ?A @ ''}'' @ ?w2 @ ''catch'' @ ?w3 @ ''('' @ ?B @ '')'' @ ?w4 @
      ''{'' @ ?C @ ''}'' @ r"
    by (subst e1, subst e2, subst e3, subst e4, subst e5, subst e6, subst e7, subst e8) (rule refl)
  then have b: "b = ?t @ r" by simp
  have "try_catch_text ?t"
    unfolding try_catch_text_def
    apply (rule exI [of _ ?w1], rule exI [of _ ?A], rule exI [of _ ?w2], rule exI [of _ ?w3])
    apply (rule exI [of _ ?B], rule exI [of _ ?w4], rule exI [of _ ?C])
    apply (simp add: list_all_takeWhile notin_takeWhile st(6))
    done
  with b show ?thesis by blast
qed

lemma dropWhile_all: "list_all P w \<Longrightarrow> \<not> P c \<Longrightarrow> dropWhile P (w @ c # r) = c # r"
  by (induction w) auto

lemma try_catch_text_match:
  assumes "try_catch_text t"
  shows "\<exists>m1 m2 m3. match_try_catch t = Some (m1, m2, m3, [])"
proof -
  from assms obtain w1 A w2 w3 B w4 C where
    t: "t = ''try'' @ w1 @ ''{'' @ A @ ''}'' @ w2 @ ''catch'' @ w3 @ ''('' @ B @ '')'' @ w4 @
            ''{'' @ C @ ''}''"
    and w: "list_all isspace w1" "list_all isspace w2" "list_all isspace w3" "list_all isspace w4"
    and n: "CHR ''}'' \<notin> set A" "B \<noteq> []" "CHR '')'' \<notin> set B" "CHR ''}'' \<notin> set C"
    unfolding try_catch_text_def by blast
  have sp: "\<not> isspace CHR ''{''" "\<not> isspace CHR ''c''" "\<not> isspace CHR ''(''"
    by (simp_all add: isspace_def)
  show ?thesis
    unfolding t
    using w n sp
    by (simp add: match_try_catch_def lit_def ws_star_def dropWhile_all takeWhile_neq_append
        dropWhile_neq_append)
qed

lemma search_try_catch_SomeD:
  "search_try_catch s = Some r \<Longrightarrow> \<exists>b. suffix b s \<and> match_try_catch b = Some r"
proof (induction s)
  case Nil
  then show ?case by auto
next
  case (Cons c cs)
  show ?case
  proof (cases "match_try_catch (c # cs)")
    case None
    with Cons.prems have "search_try_catch cs = Some r" by simp
    from Cons.IH [OF this] obtain b where "suffix b cs" "match_try_catch b = Some r" by blast
    then show ?thesis by (auto intro: suffix_ConsI)
  next
    case (Some t)
    with Cons.prems have "match_try_catch (c # cs) = Some r" by simp
    then show ?thesis by blast
  qed
qed

lemma search_try_catch_behind:
  "match_try_catch b \<noteq> None \<Longrightarrow> search_try_catch (u @ b) \<noteq> None"
proof (induction u)
  case Nil
  then show ?case by (cases b) auto
next
  case (Cons c u)
  then show ?case by (cases "match_try_catch (c # u @ b)") auto
qed

lemma search_try_catch_iff:
  "(search_try_catch s \<noteq> None) = (\<exists>t. try_catch_text t \<and> sublist t s)"
proof
  assume "search_try_catch s \<noteq> None"
  then obtain m1 m2 m3 r where "search_try_catch s = Some (m1, m2, m3, r)" by auto
  from search_try_catch_SomeD [OF this] obtain b where
    b: "suffix b s" "match_try_catch b = Some (m1, m2, m3, r)" by blast
  from match_try_catch_text [OF b(2)] obtain t where t: "try_catch_text t" "b = t @ r" by blast
  from b(1) obtain u where "s = u @ b" by (auto simp: suffix_def)
  with t(2) have "s = u @ t @ r" by simp
  then have "sublist t s" by (auto simp: sublist_def)
  with t(1) show "\<exists>t. try_catch_text t \<and> sublist t s" by blast
next
  assume "\<exists>t. try_catch_text t \<and> sublist t s"
  then obtain t u v where t: "try_catch_text t" and s: "s = u @ t @ v"
    by (auto simp: sublist_def)
  from try_catch_text_match [OF t] obtain m1 m2 m3 where
    "match_try_catch t = Some (m1, m2, m3, [])" by blast
  from match_try_catch_app [OF this, of v] have "match_try_catch (t @ v) \<noteq> None" by simp
  then show "search_try_catch s \<noteq> None"
    unfolding s by (rule search_try_catch_behind)
qed

lemma detectTryCatchBlocks_loop_nonempty:
  "(detectTryCatchBlocks_loop s [] \<noteq> []) = (\<exists>t. try_catch_text t \<and> sublist t s)"
proof (cases "search_try_catch s")
  case None
  then show ?thesis
    using search_try_catch_iff [of s] by (simp add: detectTryCatchBlocks_loop_None)
next
  case (Some x)
  obtain m1 m2 m3 r where "search_try_catch s = Some (m1, m2, m3, r)"
    using Some by (cases x) auto
  from detectTryCatchBlocks_loop_Some [OF this, of "[]"]
  have "detectTryCatchBlocks_loop s [] \<noteq> []"
    by (simp add: detectTryCatchBlocks_loop_append [of r "[_]"])
  then show ?thesis
    using search_try_catch_iff [of s] Some by simp
qed

text \<open>
  C6, as stated, fails in both directions. A body that consists of the throw statement
  \<^verbatim>\<open>throw;\<close> leaves the flag false: the code looks for \<^verbatim>\<open>throw\<close> followed by white space,
  and here a semicolon follows; nothing says the function can throw and no try/catch is
  detected. And a function that comes with a try/catch block on record gets the flag
  although its body holds no try/catch, no throw statement, and nothing says it can throw:
  the blocks already recorded count, not only the ones detected in this pass.
\<close>

theorem throw_statement_without_space:
  "has_throw_statement (body (named_function ''forward'' ''throw;'')) \<and>
   \<not> can_throw (exception_spec
       (ExceptionAnalyzer_analyzeFunction (named_function ''forward'' ''throw;''))) \<and>
   try_catch_blocks (ExceptionAnalyzer_analyzeFunction (named_function ''forward'' ''throw;'')) = [] \<and>
   \<not> may_throw (ExceptionAnalyzer_analyzeFunction (named_function ''forward'' ''throw;'')) \<and>
   \<not> has_throw_statement
       (body ((named_function ''settled'' ''return;'')
          \<lparr>try_catch_blocks := [\<lparr>try_body = ''a();'', catch_clauses = []\<rparr>]\<rparr>)) \<and>
   \<not> can_throw (exception_spec
       (ExceptionAnalyzer_analyzeFunction
          ((named_function ''settled'' ''return;'')
             \<lparr>try_catch_blocks := [\<lparr>try_body = ''a();'', catch_clauses = []\<rparr>]\<rparr>))) \<and>
   detectTryCatchBlocks_loop ''return;'' [] = [] \<and>
   may_throw
     (ExceptionAnalyzer_analyzeFunction
        ((named_function ''settled'' ''return;'')
           \<lparr>try_catch_blocks := [\<lparr>try_body = ''a();'', catch_clauses = []\<rparr>]\<rparr>))"
proof -
  have d1: "detectTryCatchBlocks_loop ''throw;'' [] = []"
    by (rule detectTryCatchBlocks_loop_None) (simp add: match_try_catch_def lit_def)
  have d2: "detectTryCatchBlocks_loop ''return;'' [] = []"
    by (rule detectTryCatchBlocks_loop_None) (simp add: match_try_catch_def lit_def)
  have r1: "\<not> regex_search_throw ''throw;''" by (simp add: lit_def isspace_def)
  have r2: "\<not> regex_search_throw ''return;''" by (simp add: lit_def)
  have h1: "has_throw_statement ''throw;''" by (simp add: has_throw_statement_def isword_def)
  have h2: "\<not> has_throw_statement ''return;''" by (simp add: has_throw_statement_def)
  show ?thesis
    using d1 d2 r1 r2 h1 h2
    by (simp add: ExceptionAnalyzer_analyzeFunction_fields named_function_def)
qed

text \<open>
  C6, amended. After \<open>analyzeFunction\<close> the flag \<open>may_throw\<close> holds exactly when one of three
  holds: the exception specification says the function can throw (\<open>can_throw\<close>), the list of
  try/catch blocks is not empty, or the body contains \<^verbatim>\<open>throw\<close> followed by a space. After
  the pass \<open>can_throw\<close> holds exactly when the name does not contain \<^verbatim>\<open>noexcept\<close> and either
  it held before or the body contains \<^verbatim>\<open>throw\<close> followed by a white space character. The list
  of blocks is not empty exactly when it was not empty before or the body contains a text
  that the try/catch pattern matches. So the flag is given by the name, the body text and
  the two annotations the function came with.
\<close>

theorem may_throw_disjunction:
  "may_throw (ExceptionAnalyzer_analyzeFunction f) =
     (can_throw (exception_spec (ExceptionAnalyzer_analyzeFunction f)) \<or>
      try_catch_blocks (ExceptionAnalyzer_analyzeFunction f) \<noteq> [] \<or>
      sublist ''throw '' (body f)) \<and>
   can_throw (exception_spec (ExceptionAnalyzer_analyzeFunction f)) =
     (\<not> sublist ''noexcept'' (fn_name f) \<and>
      (can_throw (exception_spec f) \<or> (\<exists>w. isspace w \<and> sublist (''throw'' @ [w]) (body f)))) \<and>
   (try_catch_blocks (ExceptionAnalyzer_analyzeFunction f) \<noteq> []) =
     (try_catch_blocks f \<noteq> [] \<or> (\<exists>t. try_catch_text t \<and> sublist t (body f))) \<and>
   may_throw (ExceptionAnalyzer_analyzeFunction f) =
     ((\<not> sublist ''noexcept'' (fn_name f) \<and>
       (can_throw (exception_spec f) \<or> (\<exists>w. isspace w \<and> sublist (''throw'' @ [w]) (body f)))) \<or>
      (try_catch_blocks f \<noteq> [] \<or> (\<exists>t. try_catch_text t \<and> sublist t (body f))) \<or>
      sublist ''throw '' (body f))"
proof -
  have flag: "may_throw (ExceptionAnalyzer_analyzeFunction f) =
     (can_throw (exception_spec (ExceptionAnalyzer_analyzeFunction f)) \<or>
      try_catch_blocks (ExceptionAnalyzer_analyzeFunction f) \<noteq> [] \<or>
      sublist ''throw '' (body f))"
    by (simp only: ExceptionAnalyzer_analyzeFunction_fields contains_str_sublist)
  have spec: "can_throw (exception_spec (ExceptionAnalyzer_analyzeFunction f)) =
     (\<not> sublist ''noexcept'' (fn_name f) \<and>
      (can_throw (exception_spec f) \<or> (\<exists>w. isspace w \<and> sublist (''throw'' @ [w]) (body f))))"
    by (simp only: ExceptionAnalyzer_analyzeFunction_fields contains_str_sublist
        regex_search_throw_iff)
  have blocks: "(try_catch_blocks (ExceptionAnalyzer_analyzeFunction f) \<noteq> []) =
     (try_catch_blocks f \<noteq> [] \<or> (\<exists>t. try_catch_text t \<and> sublist t (body f)))"
    using detectTryCatchBlocks_loop_nonempty [of "body f"]
    by (simp only: ExceptionAnalyzer_analyzeFunction_fields append_is_Nil_conv de_Morgan_conj)
  have direct: "may_throw (ExceptionAnalyzer_analyzeFunction f) =
     ((\<not> sublist ''noexcept'' (fn_name f) \<and>
       (can_throw (exception_spec f) \<or> (\<exists>w. isspace w \<and> sublist (''throw'' @ [w]) (body f)))) \<or>
      (try_catch_blocks f \<noteq> [] \<or> (\<exists>t. try_catch_text t \<and> sublist t (body f))) \<or>
      sublist ''throw '' (body f))"
    by (simp only: flag spec blocks)
  from flag spec blocks direct show ?thesis by blast
qed

theorem may_throw_disjunction_witness:
  "may_throw (ExceptionAnalyzer_analyzeFunction (named_function ''f'' ''throw 1;'')) \<and>
   may_throw (ExceptionAnalyzer_analyzeFunction
     (named_function ''g'' ''try { h(); } catch(...) { }'')) \<and>
   may_throw (ExceptionAnalyzer_analyzeFunction (named_function ''g_noexcept'' ''throw 1;'')) \<and>
   \<not> may_throw (ExceptionAnalyzer_analyzeFunction (named_function ''h'' ''return 1;''))"
proof -
  have s1: "sublist ''throw '' ''throw 1;''"
    by (simp add: contains_str_sublist [symmetric])
  have s2: "\<not> sublist ''throw '' ''return 1;''"
    by (simp add: contains_str_sublist [symmetric])
  have s3: "\<not> sublist ''noexcept'' ''h''"
    by (simp add: contains_str_sublist [symmetric])
  have "detectTryCatchBlocks_loop ''try { h(); } catch(...) { }'' [] \<noteq> []"
    using detect_single_catch_all [of "'' h(); ''" "'' ''"] by simp
  then have d2: "\<exists>t. try_catch_text t \<and> sublist t ''try { h(); } catch(...) { }''"
    by (simp only: detectTryCatchBlocks_loop_nonempty)
  have "detectTryCatchBlocks_loop ''return 1;'' [] = []"
    by (rule detectTryCatchBlocks_loop_None) (simp add: match_try_catch_def lit_def)
  then have d3: "\<not> (\<exists>t. try_catch_text t \<and> sublist t ''return 1;'')"
    by (simp only: detectTryCatchBlocks_loop_nonempty [symmetric] simp_thms)
  have "\<not> regex_search_throw ''return 1;''"
    by (simp add: lit_def)
  then have r3: "\<not> (\<exists>w. isspace w \<and> sublist (''throw'' @ [w]) ''return 1;'')"
    by (simp only: regex_search_throw_iff simp_thms)
  have a: "may_throw (ExceptionAnalyzer_analyzeFunction (named_function ''f'' ''throw 1;''))"
    using may_throw_disjunction [of "named_function ''f'' ''throw 1;''"] s1
    by (simp add: named_function_def)
  have b: "may_throw (ExceptionAnalyzer_analyzeFunction
     (named_function ''g'' ''try { h(); } catch(...) { }''))"
    using may_throw_disjunction [of "named_function ''g'' ''try { h(); } catch(...) { }''"] d2
    by (simp add: named_function_def)
  have c: "may_throw (ExceptionAnalyzer_analyzeFunction (named_function ''g_noexcept'' ''throw 1;''))"
    using may_throw_disjunction [of "named_function ''g_noexcept'' ''throw 1;''"] s1
    by (simp add: named_function_def)
  have d: "\<not> may_throw (ExceptionAnalyzer_analyzeFunction (named_function ''h'' ''return 1;''))"
    using may_throw_disjunction [of "named_function ''h'' ''return 1;''"] s2 s3 d3 r3
    by (simp add: named_function_def)
  from a b c d show ?thesis by blast
qed

section \<open>STLContainerMapper::extractTemplateArgs: properties\<close>








section \<open>ThreadAnalyzer::detectThreadCreation: properties\<close>

subsection \<open>Search lemmas\<close>

lemma regex_matches_None: "regex_search m s = None \<Longrightarrow> regex_matches m s = []"
  by (subst regex_matches.simps) simp

lemma regex_matches_Some:
  "regex_search m s = Some (x, rest) \<Longrightarrow> length rest < length s \<Longrightarrow>
   regex_matches m s = x # regex_matches m rest"
  by (subst regex_matches.simps) simp

lemma regex_search_shorter:
  "consuming m \<Longrightarrow> regex_search m s = Some (x, r) \<Longrightarrow> length r < length s"
proof (induction s)
  case Nil
  then have "m [] = Some (x, r)" by simp
  with Nil(1) have "length r < length ([] :: string)" unfolding consuming_def by blast
  then show ?case by simp
next
  case (Cons c s)
  show ?case
  proof (cases "m (c # s)")
    case None
    with Cons have "length r < length s" by simp
    then show ?thesis by simp
  next
    case (Some t)
    with Cons.prems have "m (c # s) = Some (x, r)" by simp
    with Cons.prems(1) show ?thesis unfolding consuming_def by blast
  qed
qed

lemma regex_matches_unfold:
  "consuming m \<Longrightarrow>
   regex_matches m s =
     (case regex_search m s of None \<Rightarrow> [] | Some (x, rest) \<Rightarrow> x # regex_matches m rest)"
  by (subst regex_matches.simps) (auto split: option.splits dest: regex_search_shorter)

lemma regex_matches_Cons_None:
  "consuming m \<Longrightarrow> m (c # cs) = None \<Longrightarrow> regex_matches m (c # cs) = regex_matches m cs"
  by (simp add: regex_matches_unfold [of m "c # cs"] regex_matches_unfold [of m cs])

lemma ws_plus_le: "ws_plus s = Some r \<Longrightarrow> length r \<le> length s"
  using ws_star_length [of "tl s"]
  by (auto simp: ws_plus_def split: list.splits if_splits)

lemma word_le: "word s = Some (w, r) \<Longrightarrow> length r \<le> length s"
  by (auto simp: word_def length_dropWhile_le split: if_splits)

lemma word_lt: "word s = Some (w, r) \<Longrightarrow> length r < length s"
  by (cases s) (auto simp: word_def length_dropWhile_le le_imp_less_Suc split: if_splits)

lemma match_args_le: "match_args c s = Some (a, r) \<Longrightarrow> length r \<le> length s"
proof -
  assume m: "match_args c s = Some (a, r)"
  show ?thesis
  proof (cases "lit '','' s")
    case None
    with m show ?thesis by (auto simp: match_args_def split: option.splits dest: lit_le)
  next
    case (Some r1)
    with m have "lit [c] (dropWhile (\<lambda>x. x \<noteq> c) (ws_star r1)) = Some r"
      by (auto simp: match_args_def split: option.splits)
    then have "length r \<le> length (dropWhile (\<lambda>x. x \<noteq> c) (ws_star r1))" by (rule lit_le)
    also have "\<dots> \<le> length (ws_star r1)" by (rule length_dropWhile_le)
    also have "\<dots> \<le> length r1" by (rule ws_star_length)
    also have "\<dots> \<le> length s" using Some by (rule lit_le)
    finally show ?thesis .
  qed
qed

lemma consuming_match_detach: "consuming match_detach"
  unfolding consuming_def
proof (intro allI impI)
  fix s x r assume "match_detach s = Some (x, r)"
  then obtain w s1 s2 where "word s = Some (w, s1)" "lit ''.detach'' s1 = Some s2"
    "lit ''()'' (ws_star s2) = Some r"
    by (auto simp: match_detach_def split: bind_splits)
  then show "length r < length s"
    using ws_star_length [of s2] by (auto dest!: word_lt lit_le)
qed

lemma consuming_match_thread1: "consuming match_thread1"
  unfolding consuming_def
proof (intro allI impI)
  fix s x r assume "match_thread1 s = Some (x, r)"
  then obtain s1 s2 m1 s3 s4 m2 s5 m3 where
    "lit ''std::thread'' s = Some s1" "ws_plus s1 = Some s2" "word s2 = Some (m1, s3)"
    "lit ''('' (ws_star s3) = Some s4" "word (ws_star s4) = Some (m2, s5)"
    "match_args CHR '')'' (ws_star s5) = Some (m3, r)"
    by (auto simp: match_thread1_def split: bind_splits)
  then show "length r < length s"
    using ws_star_length [of s3] ws_star_length [of s4] ws_star_length [of s5]
    by (auto dest!: word_lt lit_le ws_plus_le match_args_le)
qed

subsection \<open>The spawn site\<close>

lemma lit_SomeD: "lit p s = Some r \<Longrightarrow> prefix p s \<and> r = drop (length p) s"
  by (auto simp: lit_def split: if_splits)

lemma isword_simps:
  "isword CHR ''t''" "isword CHR ''w''" "isword CHR ''o''" "isword CHR ''r''" "isword CHR ''k''"
  "isword CHR ''e''" "\<not> isword CHR ''(''" "\<not> isword CHR '',''" "\<not> isword CHR '' ''" "\<not> isword CHR '')''"
  "\<not> isword CHR ''.''"
  by (simp_all add: isword_def)

lemma isspace_simps:
  "isspace CHR '' ''" "\<not> isspace CHR ''t''" "\<not> isspace CHR ''(''" "\<not> isspace CHR ''w''"
  "\<not> isspace CHR '',''" "\<not> isspace CHR ''1''" "\<not> isspace CHR '')''"
  by (simp_all add: isspace_def)

lemma match_thread1_site:
  "match_thread1 (''std::thread t(worker, 10)'' @ R) = Some ((''t'', ''worker'', Some ''10''), R)"
  by (simp add: match_thread1_def lit_def ws_plus_def ws_star_def word_def match_args_def
      isword_simps isspace_simps)

lemma match_thread2_site: "match_thread2 (''std::thread t(worker, 10)'' @ R) = None"
  by (simp add: match_thread2_def lit_def ws_plus_def ws_star_def word_def match_args_def
      isword_simps isspace_simps)

lemma thread_info_of_site:
  "thread_info_of (''t'', ''worker'', Some ''10'') =
     \<lparr>thread_var_name = ''t'', function_name = ''worker'', arguments = [''10''],
      detached = False, joinable = True\<rparr>"
  by (simp add: thread_info_of_def new_ThreadInfo_def parseArguments_def trim_def erase_ends_def)

lemma regex_search_head: "m s = Some r \<Longrightarrow> regex_search m s = Some r"
  by (cases s) simp_all

subsection \<open>The detach call\<close>

lemma match_detach_site: "match_detach (''t.detach()'' @ post) = Some (''t'', post)"
  by (simp add: match_detach_def word_def lit_def ws_star_def isword_simps isspace_simps)

lemma dropWhile_append_keep:
  "v \<noteq> [] \<Longrightarrow> \<not> P (hd v) \<Longrightarrow> dropWhile P (b @ v) = dropWhile P b @ v"
  by (induction b) (auto simp: neq_Nil_conv)

lemma suffix_last: "suffix x b \<Longrightarrow> x \<noteq> [] \<Longrightarrow> last x = last b"
  by (auto simp: suffix_def)

lemma lit_append_within:
  assumes "lit p (b @ v) = Some r" and "v \<noteq> []" and "hd v \<notin> set p"
  shows "prefix p b \<and> r = drop (length p) b @ v"
proof -
  from lit_SomeD [OF assms(1)] have pre: "prefix p (b @ v)" and r: "r = drop (length p) (b @ v)"
    by blast+
  from pre consider "prefix p b" | us where "p = b @ us" "prefix us v" "us \<noteq> []"
    using prefix_append [of p b v] by (cases "prefix p b") auto
  then have "prefix p b"
  proof cases
    case 1
    then show ?thesis .
  next
    case 2
    from 2(2,3) assms(2) have "hd us = hd v" by (cases us; cases v) auto
    with 2(1,3) assms(3) show ?thesis by (cases us) auto
  qed
  moreover from this have "length p \<le> length b" by (rule prefix_length_le)
  ultimately show ?thesis using r by simp
qed

lemma lit_detach_within:
  assumes "lit ''.detach'' (b @ v) = Some r" and "v \<noteq> []" and "hd v = CHR ''t''"
    and "b \<noteq> []" and "\<not> isword (last b)"
  shows "prefix ''.detach'' b \<and> r = drop (length ''.detach'') b @ v"
proof -
  from lit_SomeD [OF assms(1)] have pre: "prefix ''.detach'' (b @ v)"
    and r: "r = drop (length ''.detach'') (b @ v)"
    by blast+
  from pre consider "prefix ''.detach'' b" | us where "''.detach'' = b @ us" "prefix us v" "us \<noteq> []"
    using prefix_append [of "''.detach''" b v] by (cases "prefix ''.detach'' b") auto
  then have "prefix ''.detach'' b"
  proof cases
    case 1
    then show ?thesis .
  next
    case 2
    from 2(2,3) assms(2,3) have "hd us = CHR ''t''" by (cases us; cases v) auto
    with 2(3) obtain us' where "us = CHR ''t'' # us'" by (cases us) auto
    with 2(1) have "b = ''.de''"
      by (auto simp: Cons_eq_append_conv)
    with assms(5) show ?thesis by (simp add: isword_simps)
  qed
  moreover from this have "length ''.detach'' \<le> length b" by (rule prefix_length_le)
  ultimately show ?thesis using r by simp
qed

lemma detach_overlap:
  assumes ne: "b \<noteq> []" and nw: "\<not> isword (last b)"
    and m: "match_detach (b @ ''t.detach()'' @ post) = Some (w, r)"
  shows "\<exists>b'. r = b' @ ''t.detach()'' @ post \<and> suffix b' b \<and> length b' < length b"
proof -
  let ?v = "''t.detach()'' @ post"
  have v: "?v \<noteq> []" "hd ?v = CHR ''t''" by simp_all
  from m obtain s1 s2 where s1: "word (b @ ?v) = Some (w, s1)"
    and s2: "lit ''.detach'' s1 = Some s2" and s3: "lit ''()'' (ws_star s2) = Some r"
    by (auto simp: match_detach_def split: bind_splits)
  have last_in: "last b \<in> set b" using ne by simp
  let ?b1 = "dropWhile isword b"
  have "dropWhile isword (b @ ?v) = ?b1 @ ?v"
    using last_in nw by (rule dropWhile_append1)
  then have s1_eq: "s1 = ?b1 @ ?v"
    using s1 by (auto simp: word_def split: if_splits)
  have b1_ne: "?b1 \<noteq> []" using last_in nw by (auto simp: dropWhile_eq_Nil_conv)
  have b1_suf: "suffix ?b1 b" by (rule suffix_dropWhile)
  have b1_nw: "\<not> isword (last ?b1)" using suffix_last [OF b1_suf b1_ne] nw by simp
  let ?b2 = "drop (length ''.detach'') ?b1"
  from lit_detach_within [OF s2 [unfolded s1_eq] v b1_ne b1_nw]
  have s2_eq: "s2 = ?b2 @ ?v" by blast
  have b2_suf: "suffix ?b2 ?b1" by (rule suffix_drop)
  let ?b3 = "dropWhile isspace ?b2"
  have ws: "ws_star s2 = ?b3 @ ?v"
    unfolding s2_eq ws_star_def by (rule dropWhile_append_keep) (simp_all add: isspace_simps)
  have b3_suf: "suffix ?b3 ?b2" by (rule suffix_dropWhile)
  from lit_append_within [OF s3 [unfolded ws] v(1)]
  have p3: "prefix ''()'' ?b3" and r: "r = drop (length ''()'') ?b3 @ ?v" by simp_all
  let ?b' = "drop (length ''()'') ?b3"
  have "suffix ?b' ?b3" by (rule suffix_drop)
  with b3_suf b2_suf b1_suf have suf: "suffix ?b' b"
    by (meson suffix_order.trans)
  from p3 have "length ''()'' \<le> length ?b3" by (rule prefix_length_le)
  then have "length ?b' < length ?b3" by simp
  also have "\<dots> \<le> length b"
    using b3_suf b2_suf b1_suf by (meson suffix_length_le le_trans)
  finally have "length ?b' < length b" .
  with r suf show ?thesis by blast
qed

lemma detach_reached:
  assumes "u = [] \<or> \<not> isword (last u)"
  shows "''t'' \<in> set (regex_matches match_detach (u @ ''t.detach()'' @ post))"
  using assms
proof (induction "length u" arbitrary: u rule: less_induct)
  case less
  let ?v = "''t.detach()'' @ post"
  show ?case
  proof (cases u)
    case Nil
    have found: "regex_search match_detach ?v = Some (''t'', post)"
      by (rule regex_search_head) (rule match_detach_site)
    have "regex_matches match_detach ?v = ''t'' # regex_matches match_detach post"
      by (subst regex_matches_unfold [OF consuming_match_detach])
        (simp only: found option.case prod.case)
    then show ?thesis
      using Nil by simp
  next
    case (Cons c u')
    with less.prems have nw: "\<not> isword (last u)" by simp
    have ne: "u \<noteq> []" using Cons by simp
    show ?thesis
    proof (cases "match_detach (u @ ?v)")
      case None
      then have "match_detach (c # (u' @ ?v)) = None" using Cons by simp
      from regex_matches_Cons_None [OF consuming_match_detach this]
      have eq: "regex_matches match_detach (u @ ?v) = regex_matches match_detach (u' @ ?v)"
        using Cons by simp
      have cond: "u' = [] \<or> \<not> isword (last u')" using nw Cons by auto
      have "length u' < length u" using Cons by simp
      from less.hyps [OF this cond] eq show ?thesis by simp
    next
      case (Some t)
      obtain w r where t: "t = (w, r)" by (cases t)
      from detach_overlap [OF ne nw Some [unfolded t]] obtain b' where
        b': "r = b' @ ?v" "suffix b' u" "length b' < length u"
        by blast
      have cond: "b' = [] \<or> \<not> isword (last b')"
        using suffix_last [OF b'(2)] nw by auto
      have "regex_search match_detach (u @ ?v) = Some (w, r)"
        using Some t by (intro regex_search_head) simp
      then have "regex_matches match_detach (u @ ?v) = w # regex_matches match_detach r"
        by (subst regex_matches_unfold [OF consuming_match_detach]) (simp only: option.case prod.case)
      then have "regex_matches match_detach (u @ ?v) = w # regex_matches match_detach (b' @ ?v)"
        by (simp only: b'(1))
      with less.hyps [OF b'(3) cond] show ?thesis by simp
    qed
  qed
qed

subsection \<open>Appending text behind a spawn match\<close>

lemma ws_star_app: "ws_star s \<noteq> [] \<Longrightarrow> ws_star (s @ v) = ws_star s @ v"
proof -
  assume "ws_star s \<noteq> []"
  then obtain x where "x \<in> set s" "\<not> isspace x"
    by (auto simp: ws_star_def dropWhile_eq_Nil_conv)
  then show ?thesis unfolding ws_star_def by (rule dropWhile_append1)
qed

lemma ws_star_Nil_iff: "ws_star s \<noteq> [] \<Longrightarrow> s \<noteq> []"
  by (auto simp: ws_star_def)

lemma ws_plus_app:
  assumes "ws_plus s = Some r" and "r \<noteq> []"
  shows "ws_plus (s @ v) = Some (r @ v)"
proof -
  from assms(1) obtain c cs where s: "s = c # cs" and c: "isspace c" and r: "r = ws_star cs"
    by (auto simp: ws_plus_def split: list.splits if_splits)
  from assms(2) r have "ws_star (cs @ v) = r @ v" by (simp add: ws_star_app)
  then show ?thesis using s c by (simp add: ws_plus_def)
qed

lemma word_nonempty: "word s = Some (w, r) \<Longrightarrow> s \<noteq> []"
  by (auto simp: word_def split: if_splits)

lemma word_app:
  assumes "word s = Some (w, r)" and "r \<noteq> []"
  shows "word (s @ v) = Some (w, r @ v)"
proof -
  from assms(1) have w: "takeWhile isword s \<noteq> []" "w = takeWhile isword s" "r = dropWhile isword s"
    by (auto simp: word_def split: if_splits)
  from assms(2) w(3) obtain x where x: "x \<in> set s" "\<not> isword x"
    by (auto simp: dropWhile_eq_Nil_conv)
  have "takeWhile isword (s @ v) = takeWhile isword s" using x by (rule takeWhile_append1)
  moreover have "dropWhile isword (s @ v) = dropWhile isword s @ v" using x by (rule dropWhile_append1)
  ultimately show ?thesis using w by (simp add: word_def)
qed

lemma match_args_nonempty: "match_args c s = Some (a, r) \<Longrightarrow> s \<noteq> []"
  by (auto simp: match_args_def lit_def split: option.splits if_splits)

lemma match_args_app:
  assumes "match_args c s = Some (a, r)" and "c \<noteq> CHR '',''"
  shows "match_args c (s @ v) = Some (a, r @ v)"
proof (cases "lit '','' s")
  case None
  with assms(1) have l: "lit [c] s = Some r" and a: "a = None"
    by (auto simp: match_args_def split: option.splits)
  from lit_eq [OF l] have s: "s = c # r" by simp
  have "lit '','' (s @ v) = None" using assms(2) s by (simp add: lit_def)
  moreover have "lit [c] (s @ v) = Some (r @ v)" using l by (rule lit_app)
  ultimately show ?thesis using a by (simp add: match_args_def)
next
  case (Some r1)
  with assms(1) have l: "lit [c] (dropWhile (\<lambda>x. x \<noteq> c) (ws_star r1)) = Some r"
    and a: "a = Some (takeWhile (\<lambda>x. x \<noteq> c) (ws_star r1))"
    by (auto simp: match_args_def split: option.splits)
  have "dropWhile (\<lambda>x. x \<noteq> c) (ws_star r1) \<noteq> []"
  proof
    assume "dropWhile (\<lambda>x. x \<noteq> c) (ws_star r1) = []"
    with l show False by (simp add: lit_def)
  qed
  then have "ws_star r1 \<noteq> []"
    by (cases "ws_star r1") simp_all
  then have w: "ws_star (r1 @ v) = ws_star r1 @ v" by (rule ws_star_app)
  have c: "lit '','' (s @ v) = Some (r1 @ v)" using Some by (rule lit_app)
  from run_lit_app [OF l, of v]
  have "lit [c] (dropWhile (\<lambda>x. x \<noteq> c) (ws_star r1 @ v)) = Some (r @ v)"
    and "takeWhile (\<lambda>x. x \<noteq> c) (ws_star r1 @ v) = takeWhile (\<lambda>x. x \<noteq> c) (ws_star r1)"
    by simp_all
  then show ?thesis using a c w by (simp add: match_args_def)
qed

lemma match_thread1_steps:
  assumes "match_thread1 s = Some (x, r)"
  obtains s1 s2 m1 s3 s4 m2 s5 m3 where
    "lit ''std::thread'' s = Some s1" "ws_plus s1 = Some s2" "word s2 = Some (m1, s3)"
    "lit ''('' (ws_star s3) = Some s4" "word (ws_star s4) = Some (m2, s5)"
    "match_args CHR '')'' (ws_star s5) = Some (m3, r)" "x = (m1, m2, m3)"
  using assms by (auto simp: match_thread1_def split: bind_splits)

lemma match_thread1_app:
  assumes "match_thread1 s = Some (x, r)"
  shows "match_thread1 (s @ v) = Some (x, r @ v)"
proof -
  from assms obtain s1 s2 m1 s3 s4 m2 s5 m3 where st:
    "lit ''std::thread'' s = Some s1" "ws_plus s1 = Some s2" "word s2 = Some (m1, s3)"
    "lit ''('' (ws_star s3) = Some s4" "word (ws_star s4) = Some (m2, s5)"
    "match_args CHR '')'' (ws_star s5) = Some (m3, r)" and x: "x = (m1, m2, m3)"
    by (rule match_thread1_steps)
  have n2: "s2 \<noteq> []" using st(3) by (rule word_nonempty)
  have "ws_star s3 \<noteq> []" using st(4) by (auto simp: lit_def)
  then have n3: "s3 \<noteq> []" by (rule ws_star_Nil_iff)
  have n4: "ws_star s4 \<noteq> []" using st(5) by (rule word_nonempty)
  have n5': "ws_star s5 \<noteq> []" using st(6) by (rule match_args_nonempty)
  then have n5: "s5 \<noteq> []" by (rule ws_star_Nil_iff)
  have 1: "lit ''std::thread'' (s @ v) = Some (s1 @ v)" using st(1) by (rule lit_app)
  have 2: "ws_plus (s1 @ v) = Some (s2 @ v)" using st(2) n2 by (rule ws_plus_app)
  have 3: "word (s2 @ v) = Some (m1, s3 @ v)" using st(3) n3 by (rule word_app)
  have 4: "lit ''('' (ws_star (s3 @ v)) = Some (s4 @ v)"
    using run_lit_app [OF st(4) [unfolded ws_star_def], of v] by (simp add: ws_star_def)
  have 5: "word (ws_star (s4 @ v)) = Some (m2, s5 @ v)"
    using word_app [OF st(5) n5, of v] ws_star_app [OF n4, of v] by simp
  have 6: "match_args CHR '')'' (ws_star (s5 @ v)) = Some (m3, r @ v)"
    using match_args_app [OF st(6), of v] ws_star_app [OF n5', of v] by simp
  show ?thesis
    by (simp add: match_thread1_def 1 2 3 4 5 6 x)
qed

subsection \<open>Spawn: a match that ends before a place\<close>

lemma ws_star_local:
  "length v < length (ws_star (s @ v)) \<Longrightarrow> ws_star (s @ v) = ws_star s @ v"
  unfolding ws_star_def using run_local [of v isspace s] by simp

lemma ws_plus_local:
  assumes "ws_plus (s @ v) = Some r'" and "length v < length r'"
  shows "\<exists>r. r' = r @ v \<and> ws_plus s = Some r"
proof (cases s)
  case Nil
  with assms(1) have "ws_plus v = Some r'" by simp
  from ws_plus_le [OF this] assms(2) show ?thesis by simp
next
  case (Cons c cs)
  with assms(1) have c: "isspace c" and r': "r' = ws_star (cs @ v)"
    by (auto simp: ws_plus_def split: if_splits)
  from assms(2) r' have "ws_star (cs @ v) = ws_star cs @ v" by (intro ws_star_local) simp
  with r' c Cons show ?thesis by (simp add: ws_plus_def)
qed

lemma word_local:
  assumes "word (s @ v) = Some (w, r')" and "length v < length r'"
  shows "\<exists>r. r' = r @ v \<and> word s = Some (w, r)"
proof -
  from assms(1) have w: "takeWhile isword (s @ v) \<noteq> []" "w = takeWhile isword (s @ v)"
    "r' = dropWhile isword (s @ v)"
    by (auto simp: word_def split: if_splits)
  from assms(2) w(3) have "length v < length (dropWhile isword (s @ v))" by simp
  from run_local [OF this]
  have "dropWhile isword (s @ v) = dropWhile isword s @ v"
    and "takeWhile isword (s @ v) = takeWhile isword s" by simp_all
  with w show ?thesis by (simp add: word_def)
qed

lemma match_args_lt: "match_args c s = Some (a, r) \<Longrightarrow> length r < length s"
proof -
  assume m: "match_args c s = Some (a, r)"
  show ?thesis
  proof (cases "lit '','' s")
    case None
    with m have "lit [c] s = Some r" by (auto simp: match_args_def split: option.splits)
    from lit_length [OF this] show ?thesis by simp
  next
    case (Some r1)
    with m have "lit [c] (dropWhile (\<lambda>x. x \<noteq> c) (ws_star r1)) = Some r"
      by (auto simp: match_args_def split: option.splits)
    from run_lit_le [OF this] have "length r \<le> length (ws_star r1)" .
    also have "\<dots> \<le> length r1" by (rule ws_star_length)
    also have "\<dots> < length s" using lit_length [OF Some] by simp
    finally show ?thesis .
  qed
qed

lemma match_args_local:
  assumes "match_args c (s @ v) = Some (a, r')" and "length v \<le> length r'" and "c \<noteq> CHR '',''"
  shows "\<exists>r. r' = r @ v \<and> match_args c s = Some (a, r)"
proof (cases "lit '','' (s @ v)")
  case None
  with assms(1) have l: "lit [c] (s @ v) = Some r'" and a: "a = None"
    by (auto simp: match_args_def split: option.splits)
  from lit_local [OF l assms(2)] obtain r where r: "r' = r @ v" "lit [c] s = Some r" by blast
  have "lit '','' s = None"
  proof (cases "lit '','' s")
    case (Some t)
    from lit_app [OF this, of v] None show ?thesis by simp
  qed
  with r(2) a have "match_args c s = Some (a, r)" by (simp add: match_args_def)
  with r(1) show ?thesis by blast
next
  case (Some t1)
  with assms(1) have l: "lit [c] (dropWhile (\<lambda>x. x \<noteq> c) (ws_star t1)) = Some r'"
    and a: "a = Some (takeWhile (\<lambda>x. x \<noteq> c) (ws_star t1))"
    by (auto simp: match_args_def split: option.splits)
  from lit_length [OF l] have "length r' < length (dropWhile (\<lambda>x. x \<noteq> c) (ws_star t1))" by simp
  also have "\<dots> \<le> length (ws_star t1)" by (rule length_dropWhile_le)
  finally have lw: "length v < length (ws_star t1)" using assms(2) by simp
  with ws_star_length [of t1] have l1: "length v \<le> length t1" by simp
  from lit_local [OF Some l1] obtain r1 where r1: "t1 = r1 @ v" "lit '','' s = Some r1" by blast
  have w: "ws_star (r1 @ v) = ws_star r1 @ v" using lw r1(1) by (intro ws_star_local) simp
  from l r1(1) w have "lit [c] (dropWhile (\<lambda>x. x \<noteq> c) (ws_star r1 @ v)) = Some r'" by simp
  from run_lit_local [OF this assms(2)] obtain r where
    r: "r' = r @ v" "lit [c] (dropWhile (\<lambda>x. x \<noteq> c) (ws_star r1)) = Some r"
      "takeWhile (\<lambda>x. x \<noteq> c) (ws_star r1 @ v) = takeWhile (\<lambda>x. x \<noteq> c) (ws_star r1)"
    by auto
  have "match_args c s = Some (a, r)"
    using r1(2) r(2,3) a r1(1) w by (simp add: match_args_def)
  with r(1) show ?thesis by blast
qed

lemma match_thread1_local:
  assumes "match_thread1 (s @ v) = Some (x, r')" and "length v \<le> length r'"
  shows "\<exists>r. r' = r @ v \<and> match_thread1 s = Some (x, r)"
proof -
  from assms(1) obtain t1 t2 m1 t3 t4 m2 t5 m3 where st:
    "lit ''std::thread'' (s @ v) = Some t1" "ws_plus t1 = Some t2" "word t2 = Some (m1, t3)"
    "lit ''('' (ws_star t3) = Some t4" "word (ws_star t4) = Some (m2, t5)"
    "match_args CHR '')'' (ws_star t5) = Some (m3, r')" and x: "x = (m1, m2, m3)"
    by (rule match_thread1_steps)
  have w5: "length v < length (ws_star t5)" using match_args_lt [OF st(6)] assms(2) by simp
  then have l5: "length v < length t5" using ws_star_length [of t5] by simp
  then have w4: "length v < length (ws_star t4)" using word_le [OF st(5)] by simp
  then have l4: "length v < length t4" using ws_star_length [of t4] by simp
  then have w3: "length v < length (ws_star t3)" using lit_le [OF st(4)] by simp
  then have l3: "length v < length t3" using ws_star_length [of t3] by simp
  then have l2: "length v < length t2" using word_le [OF st(3)] by simp
  then have l1: "length v \<le> length t1" using ws_plus_le [OF st(2)] by simp
  from lit_local [OF st(1) l1] obtain s1 where
    1: "t1 = s1 @ v" "lit ''std::thread'' s = Some s1" by blast
  from ws_plus_local [OF st(2) [unfolded 1(1)] l2] obtain s2 where
    2: "t2 = s2 @ v" "ws_plus s1 = Some s2" by blast
  from word_local [OF st(3) [unfolded 2(1)] l3] obtain s3 where
    3: "t3 = s3 @ v" "word s2 = Some (m1, s3)" by blast
  have e3: "ws_star (s3 @ v) = ws_star s3 @ v" using w3 3(1) by (intro ws_star_local) simp
  have "length v \<le> length t4" using l4 by simp
  from lit_local [OF st(4) [unfolded 3(1) e3] this] obtain s4 where
    4: "t4 = s4 @ v" "lit ''('' (ws_star s3) = Some s4" by blast
  have e4: "ws_star (s4 @ v) = ws_star s4 @ v" using w4 4(1) by (intro ws_star_local) simp
  from word_local [OF st(5) [unfolded 4(1) e4] l5] obtain s5 where
    5: "t5 = s5 @ v" "word (ws_star s4) = Some (m2, s5)" by blast
  have e5: "ws_star (s5 @ v) = ws_star s5 @ v" using w5 5(1) by (intro ws_star_local) simp
  from match_args_local [OF st(6) [unfolded 5(1) e5] assms(2)] obtain r where
    6: "r' = r @ v" "match_args CHR '')'' (ws_star s5) = Some (m3, r)" by auto
  have "match_thread1 s = Some (x, r)"
    by (simp add: match_thread1_def 1(2) 2(2) 3(2) 4(2) 5(2) 6(2) x)
  with 6(1) show ?thesis by blast
qed

subsection \<open>The matches of a text in two parts\<close>

lemma regex_matches_Nil: "consuming m \<Longrightarrow> regex_matches m [] = []"
proof -
  assume c: "consuming m"
  have "m [] = None"
  proof (cases "m []")
    case (Some t)
    obtain x r where "t = (x, r)" by (cases t)
    with Some c have "length r < length ([] :: string)" unfolding consuming_def by blast
    then show ?thesis by simp
  qed
  then show ?thesis by (simp add: regex_matches_None)
qed

lemma regex_matches_reach:
  assumes c: "consuming m"
    and app: "\<And>s x r v. m s = Some (x, r) \<Longrightarrow> m (s @ v) = Some (x, r @ v)"
    and loc: "\<And>s v x r'. m (s @ v) = Some (x, r') \<Longrightarrow> length v \<le> length r' \<Longrightarrow>
        \<exists>r. r' = r @ v \<and> m s = Some (x, r)"
    and sr: "scan_reaches m snd pre rest"
  shows "regex_matches m (pre @ rest) = regex_matches m pre @ regex_matches m rest"
  using sr
proof (induction "length pre" arbitrary: pre rule: less_induct)
  case less
  show ?case
  proof (cases pre)
    case Nil
    then show ?thesis by (simp add: regex_matches_Nil [OF c])
  next
    case (Cons a p)
    show ?thesis
    proof (cases "m (pre @ rest)")
      case None
      then have n2: "m (a # p @ rest) = None" using Cons by simp
      have n1: "m pre = None"
      proof (cases "m pre")
        case (Some t)
        obtain x r where "m pre = Some (x, r)" using Some by (cases t) auto
        from app [OF this, of rest] None show ?thesis by simp
      qed
      have sr': "scan_reaches m snd p rest"
        using less.prems Cons scan_reaches_None [of m a p rest snd, OF n2] by simp
      have "regex_matches m (pre @ rest) = regex_matches m (p @ rest)"
        using regex_matches_Cons_None [OF c n2] Cons by simp
      also have "\<dots> = regex_matches m p @ regex_matches m rest"
        using less.hyps [OF _ sr'] Cons by simp
      also have "regex_matches m p = regex_matches m pre"
        using regex_matches_Cons_None [OF c, of a p] n1 Cons by simp
      finally show ?thesis .
    next
      case (Some t)
      obtain x r' where t: "m (pre @ rest) = Some (x, r')" using Some by (cases t) auto
      then have t2: "m (a # p @ rest) = Some (x, r')" using Cons by simp
      from less.prems Cons scan_reaches_Some [of m a p rest "(x, r')" snd, OF t2]
      have len: "length rest \<le> length r'"
        and sr': "scan_reaches m snd (take (length r' - length rest) r') rest"
        by simp_all
      from loc [OF t len] obtain r where r: "r' = r @ rest" "m pre = Some (x, r)" by blast
      have tk: "take (length r' - length rest) r' = r" using r(1) by simp
      have shorter: "length r < length pre" using c r(2) unfolding consuming_def by blast
      have f1: "regex_search m pre = Some (x, r)" using r(2) by (rule regex_search_head)
      have f2: "regex_search m (pre @ rest) = Some (x, r @ rest)"
        using t r(1) by (intro regex_search_head) simp
      have "regex_matches m pre = x # regex_matches m r"
        using f1 shorter by (rule regex_matches_Some)
      moreover have "regex_matches m (pre @ rest) = x # regex_matches m (r @ rest)"
        using f2 shorter by (intro regex_matches_Some) simp_all
      ultimately show ?thesis
        using less.hyps [OF shorter sr' [unfolded tk]] by simp
    qed
  qed
qed

lemma spawn_matches_reached:
  assumes "scan_reaches match_thread1 snd pre (''std::thread t(worker, 10)'' @ R)"
  shows "regex_matches match_thread1 (pre @ ''std::thread t(worker, 10)'' @ R) =
     regex_matches match_thread1 pre @ [(''t'', ''worker'', Some ''10'')] @
     regex_matches match_thread1 R"
proof -
  let ?S = "''std::thread t(worker, 10)''"
  have "regex_matches match_thread1 (pre @ ?S @ R) =
      regex_matches match_thread1 pre @ regex_matches match_thread1 (?S @ R)"
    using consuming_match_thread1 match_thread1_app match_thread1_local assms
    by (rule regex_matches_reach)
  moreover have "regex_matches match_thread1 (?S @ R) =
      (''t'', ''worker'', Some ''10'') # regex_matches match_thread1 R"
  proof (rule regex_matches_Some)
    show "regex_search match_thread1 (?S @ R) = Some ((''t'', ''worker'', Some ''10''), R)"
      by (rule regex_search_head) (rule match_thread1_site)
    show "length R < length (?S @ R)" by simp
  qed
  ultimately show ?thesis by simp
qed

lemma match_thread3_site: "match_thread3 (''std::thread t(worker, 10)'' @ R) = None"
  by (simp add: match_thread3_def lit_def ws_plus_def ws_star_def word_def
      isword_simps isspace_simps)

subsection \<open>Marking\<close>

lemma length_mark_detached: "length (mark_detached v ts) = length ts"
  by (induction ts) simp_all

lemma mark_detached_around:
  assumes "\<forall>a \<in> set A. thread_var_name a \<noteq> thread_var_name x"
  shows "\<exists>A' B'. mark_detached v (A @ x # B) =
       A' @ (if v = thread_var_name x then x\<lparr>detached := True, joinable := False\<rparr> else x) # B' \<and>
     map thread_var_name A' = map thread_var_name A \<and> length B' = length B"
  using assms
proof (induction A)
  case Nil
  show ?case
  proof (cases "v = thread_var_name x")
    case True
    then have "mark_detached v ([] @ x # B) =
        [] @ (if v = thread_var_name x then x\<lparr>detached := True, joinable := False\<rparr> else x) # B"
      by simp
    then show ?thesis by blast
  next
    case False
    then have "mark_detached v ([] @ x # B) =
        [] @ (if v = thread_var_name x then x\<lparr>detached := True, joinable := False\<rparr> else x) #
        mark_detached v B"
      by simp
    moreover have "length (mark_detached v B) = length B" by (rule length_mark_detached)
    ultimately show ?thesis by blast
  qed
next
  case (Cons a A)
  then have ax: "thread_var_name a \<noteq> thread_var_name x"
    and rest: "\<forall>a \<in> set A. thread_var_name a \<noteq> thread_var_name x" by simp_all
  show ?case
  proof (cases "thread_var_name a = v")
    case True
    with ax have "mark_detached v ((a # A) @ x # B) =
        (a\<lparr>detached := True, joinable := False\<rparr> # A) @
        (if v = thread_var_name x then x\<lparr>detached := True, joinable := False\<rparr> else x) # B"
      by auto
    moreover have "map thread_var_name (a\<lparr>detached := True, joinable := False\<rparr> # A) =
        map thread_var_name (a # A)" by simp
    ultimately show ?thesis by blast
  next
    case False
    from Cons.IH [OF rest] obtain A' B' where
      IH: "mark_detached v (A @ x # B) =
         A' @ (if v = thread_var_name x then x\<lparr>detached := True, joinable := False\<rparr> else x) # B'"
        "map thread_var_name A' = map thread_var_name A" "length B' = length B"
      by blast
    from False IH(1) have "mark_detached v ((a # A) @ x # B) =
        (a # A') @ (if v = thread_var_name x then x\<lparr>detached := True, joinable := False\<rparr> else x) # B'"
      by simp
    moreover have "map thread_var_name (a # A') = map thread_var_name (a # A)"
      using IH(2) by simp
    ultimately show ?thesis using IH(3) by blast
  qed
qed

lemma foldl_mark_around:
  assumes "\<forall>a \<in> set A. thread_var_name a \<noteq> thread_var_name x"
  shows "\<exists>A' B'. foldl (\<lambda>threads thread_var. mark_detached thread_var threads) (A @ x # B) vs =
       A' @ (if thread_var_name x \<in> set vs then x\<lparr>detached := True, joinable := False\<rparr> else x) # B' \<and>
     map thread_var_name A' = map thread_var_name A \<and> length B' = length B"
  using assms
proof (induction vs arbitrary: A x B)
  case Nil
  have "foldl (\<lambda>threads thread_var. mark_detached thread_var threads) (A @ x # B) [] =
      A @ (if thread_var_name x \<in> set [] then x\<lparr>detached := True, joinable := False\<rparr> else x) # B"
    by simp
  then show ?case by blast
next
  case (Cons v vs)
  let ?x1 = "if v = thread_var_name x then x\<lparr>detached := True, joinable := False\<rparr> else x"
  from mark_detached_around [OF Cons.prems, of v B] obtain A1 B1 where
    s: "mark_detached v (A @ x # B) = A1 @ ?x1 # B1"
      "map thread_var_name A1 = map thread_var_name A" "length B1 = length B"
    by blast
  have nx: "thread_var_name ?x1 = thread_var_name x" by simp
  have "set (map thread_var_name A1) = set (map thread_var_name A)" using s(2) by simp
  then have "\<forall>a \<in> set A1. thread_var_name a \<noteq> thread_var_name ?x1"
    using Cons.prems nx by (metis (no_types, lifting) image_eqI list.set_map imageE)
  from Cons.IH [OF this, of B1] obtain A' B' where
    r: "foldl (\<lambda>threads thread_var. mark_detached thread_var threads) (A1 @ ?x1 # B1) vs =
        A' @ (if thread_var_name ?x1 \<in> set vs then ?x1\<lparr>detached := True, joinable := False\<rparr> else ?x1) # B'"
      "map thread_var_name A' = map thread_var_name A1" "length B' = length B1"
    by blast
  have x': "(if thread_var_name ?x1 \<in> set vs then ?x1\<lparr>detached := True, joinable := False\<rparr> else ?x1) =
      (if thread_var_name x \<in> set (v # vs) then x\<lparr>detached := True, joinable := False\<rparr> else x)"
    by auto
  have "foldl (\<lambda>threads thread_var. mark_detached thread_var threads) (A @ x # B) (v # vs) =
      A' @ (if thread_var_name x \<in> set (v # vs) then x\<lparr>detached := True, joinable := False\<rparr> else x) # B'"
    using r(1) s(1) x' by simp
  then show ?case using r(2,3) s(2,3) by auto
qed

lemma thread_var_name_info: "thread_var_name (thread_info_of m) = fst m"
  by (cases m) (simp add: thread_info_of_def new_ThreadInfo_def)

lemma detect_reached_site:
  assumes sr: "scan_reaches match_thread1 snd pre
      (''std::thread t(worker, 10)'' @ mid @ ''t.detach()'' @ post)"
    and e: "mid = [] \<or> \<not> isword (last mid)"
    and old: "\<forall>ti \<in> set threads. thread_var_name ti \<noteq> ''t''"
    and before: "\<forall>x \<in> set (regex_matches match_thread1 pre). fst x \<noteq> ''t''"
  shows "\<exists>A B. detectThreadCreation_threads
         (pre @ ''std::thread t(worker, 10)'' @ mid @ ''t.detach()'' @ post) threads =
       A @ [\<lparr>thread_var_name = ''t'', function_name = ''worker'', arguments = [''10''],
             detached = True, joinable = False\<rparr>] @ B \<and>
     map thread_var_name A =
       map thread_var_name threads @ map fst (regex_matches match_thread1 pre) \<and>
     length B =
       length (regex_matches match_thread1 (mid @ ''t.detach()'' @ post)) +
       length (regex_matches match_thread2
         (pre @ ''std::thread t(worker, 10)'' @ mid @ ''t.detach()'' @ post)) +
       length (regex_matches match_thread3
         (pre @ ''std::thread t(worker, 10)'' @ mid @ ''t.detach()'' @ post))"
proof -
  let ?S = "''std::thread t(worker, 10)''"
  let ?R = "mid @ ''t.detach()'' @ post"
  let ?body = "pre @ ?S @ ?R"
  let ?x = "thread_info_of (''t'', ''worker'', Some ''10'')"
  let ?A = "threads @ map thread_info_of (regex_matches match_thread1 pre)"
  let ?B = "map thread_info_of (regex_matches match_thread1 ?R) @
      map thread_info_of (regex_matches match_thread2 ?body) @
      map thread_info_of (regex_matches match_thread3 ?body)"
  let ?N = "regex_matches match_detach ?body"
  let ?u = "pre @ ?S @ mid"
  have cond: "?u = [] \<or> \<not> isword (last ?u)"
    using e by (auto simp: isword_simps)
  have "''t'' \<in> set (regex_matches match_detach (?u @ ''t.detach()'' @ post))"
    using cond by (rule detach_reached)
  then have t: "thread_var_name ?x \<in> set ?N" by (simp add: thread_var_name_info)
  have names: "\<forall>a \<in> set ?A. thread_var_name a \<noteq> thread_var_name ?x"
    using old before by (auto simp: thread_var_name_info)
  have list: "detectThreadCreation_threads ?body threads =
      foldl (\<lambda>threads thread_var. mark_detached thread_var threads) (?A @ ?x # ?B) ?N"
    unfolding detectThreadCreation_threads_def Let_def spawn_matches_reached [OF sr]
    by simp
  from foldl_mark_around [OF names, of ?B ?N] obtain A' B' where
    r: "foldl (\<lambda>threads thread_var. mark_detached thread_var threads) (?A @ ?x # ?B) ?N =
        A' @ (if thread_var_name ?x \<in> set ?N then ?x\<lparr>detached := True, joinable := False\<rparr> else ?x) # B'"
      "map thread_var_name A' = map thread_var_name ?A" "length B' = length ?B"
    by blast
  have x': "(if thread_var_name ?x \<in> set ?N then ?x\<lparr>detached := True, joinable := False\<rparr> else ?x) =
      \<lparr>thread_var_name = ''t'', function_name = ''worker'', arguments = [''10''],
       detached = True, joinable = False\<rparr>"
    using t by (simp add: thread_info_of_site)
  have 1: "detectThreadCreation_threads ?body threads =
      A' @ [\<lparr>thread_var_name = ''t'', function_name = ''worker'', arguments = [''10''],
             detached = True, joinable = False\<rparr>] @ B'"
    using list r(1) x' by simp
  have 2: "map thread_var_name A' =
      map thread_var_name threads @ map fst (regex_matches match_thread1 pre)"
    using r(2) by (simp add: thread_var_name_info comp_def)
  have 3: "length B' =
       length (regex_matches match_thread1 ?R) + length (regex_matches match_thread2 ?body) +
       length (regex_matches match_thread3 ?body)"
    using r(3) by simp
  from 1 2 3 show ?thesis by blast
qed
subsection \<open>Spawn and detach\<close>

text \<open>
  C2, as stated, fails: not every body that contains the spawn text and, later, the detach
  call yields a record for that spawn. Below, the spawn stands in a lambda that is an
  argument of another spawn. The first pattern matches at the outer \<^verbatim>\<open>std::thread\<close> and its
  third capture runs to the first closing parenthesis, beyond the inner spawn; the search
  goes on behind it. One thread is recorded, \<open>outer\<close>, none named \<open>t\<close>, and the detach call
  finds nothing to mark. And the spawn text as the claim writes it, \<^verbatim>\<open>thread t(worker, 10)\<close>
  without \<^verbatim>\<open>std::\<close>, matches none of the three patterns: nothing is recorded.
\<close>

theorem spawn_inside_argument_not_recorded:
  "map (\<lambda>ti. (thread_var_name ti, function_name ti, arguments ti))
     (threads_created
        (detectThreadCreation
           (named_function ''start''
              ''std::thread outer(run, [&]{ std::thread t(worker, 10); t.detach(); });'')))
   = [(''outer'', ''run'', [''[&]{ std::thread t(worker, 10''])] \<and>
   threads_created
     (detectThreadCreation (named_function ''start'' ''thread t(worker, 10); t.detach();'')) = []"
proof -
  have 1: "map (\<lambda>ti. (thread_var_name ti, function_name ti, arguments ti))
     (detectThreadCreation_threads
        ''std::thread outer(run, [&]{ std::thread t(worker, 10); t.detach(); });'' [])
   = [(''outer'', ''run'', [''[&]{ std::thread t(worker, 10''])]"
    by code_simp
  have 2: "detectThreadCreation_threads ''thread t(worker, 10); t.detach();'' [] = []"
    by code_simp
  from 1 2 show ?thesis
    by (simp add: detectThreadCreation_def named_function_def)
qed

text \<open>
  C2, amended. Take a body \<open>pre\<close>, \<^verbatim>\<open>std::thread t(worker, 10)\<close>, \<open>mid\<close>, \<^verbatim>\<open>t.detach()\<close>, \<open>post\<close>
  in which the search loop of the first spawn pattern comes to stand at the start of the
  spawn (no match it takes before runs into it), the text before the detach call does not
  end in a word character, and no thread named \<open>t\<close> is recorded earlier: none is on record
  before the pass, and no spawn of the first pattern in \<open>pre\<close> declares a \<open>t\<close>. Other spawns
  may stand before, between and behind. Then the vector of recorded threads is a list \<open>A\<close>,
  then the record of this spawn, then a list \<open>B\<close>. The record has the variable \<open>t\<close>, the
  callable \<open>worker\<close>, the single argument \<open>10\<close>, and is detached and not joinable. \<open>A\<close> holds
  the records that were there and those of the spawns in \<open>pre\<close>, under their names; \<open>B\<close> holds
  as many records as the first pattern matches behind the spawn and the other two patterns
  match in the body. It is the one record of this spawn site: the first pattern matches in
  \<open>pre\<close>, then here, then behind, and the other two patterns do not match here.
\<close>

theorem thread_detach_recorded:
  assumes "body f = pre @ ''std::thread t(worker, 10)'' @ mid @ ''t.detach()'' @ post"
    and "scan_reaches match_thread1 snd pre
      (''std::thread t(worker, 10)'' @ mid @ ''t.detach()'' @ post)"
    and "mid = [] \<or> \<not> isword (last mid)"
    and "\<forall>ti \<in> set (threads_created f). thread_var_name ti \<noteq> ''t''"
    and "\<forall>x \<in> set (regex_matches match_thread1 pre). fst x \<noteq> ''t''"
  shows "(\<exists>A B. threads_created (detectThreadCreation f) =
         A @ [\<lparr>thread_var_name = ''t'', function_name = ''worker'', arguments = [''10''],
               detached = True, joinable = False\<rparr>] @ B \<and>
       map thread_var_name A =
         map thread_var_name (threads_created f) @ map fst (regex_matches match_thread1 pre) \<and>
       length B =
         length (regex_matches match_thread1 (mid @ ''t.detach()'' @ post)) +
         length (regex_matches match_thread2 (body f)) +
         length (regex_matches match_thread3 (body f))) \<and>
     regex_matches match_thread1 (body f) =
       regex_matches match_thread1 pre @ [(''t'', ''worker'', Some ''10'')] @
       regex_matches match_thread1 (mid @ ''t.detach()'' @ post) \<and>
     match_thread2 (''std::thread t(worker, 10)'' @ mid @ ''t.detach()'' @ post) = None \<and>
     match_thread3 (''std::thread t(worker, 10)'' @ mid @ ''t.detach()'' @ post) = None"
proof -
  have "threads_created (detectThreadCreation f) =
      detectThreadCreation_threads
        (pre @ ''std::thread t(worker, 10)'' @ mid @ ''t.detach()'' @ post) (threads_created f)"
    by (simp add: detectThreadCreation_def assms(1))
  with detect_reached_site [OF assms(2,3,4,5)] spawn_matches_reached [OF assms(2)]
    match_thread2_site [of "mid @ ''t.detach()'' @ post"]
    match_thread3_site [of "mid @ ''t.detach()'' @ post"]
  show ?thesis
    by (simp only: assms(1) simp_thms)
qed

theorem thread_detach_recorded_witness:
  "(\<exists>A B. threads_created
       (detectThreadCreation
          (named_function ''start''
             ''std::thread u(other); std::thread t(worker, 10); std::thread v(more); t.detach(); u.join();'')) =
       A @ [\<lparr>thread_var_name = ''t'', function_name = ''worker'', arguments = [''10''],
             detached = True, joinable = False\<rparr>] @ B \<and>
     map thread_var_name A = [''u''] \<and> length B = 1) \<and>
   threads_created
     (detectThreadCreation
        (named_function ''start''
           ''std::thread u(other); std::thread t(worker, 10); std::thread v(more); t.detach(); u.join();'')) =
     [\<lparr>thread_var_name = ''u'', function_name = ''other'', arguments = [],
        detached = False, joinable = True\<rparr>,
      \<lparr>thread_var_name = ''t'', function_name = ''worker'', arguments = [''10''],
        detached = True, joinable = False\<rparr>,
      \<lparr>thread_var_name = ''v'', function_name = ''more'', arguments = [],
        detached = False, joinable = True\<rparr>]"
proof -
  let ?f = "named_function ''start''
      ''std::thread u(other); std::thread t(worker, 10); std::thread v(more); t.detach(); u.join();''"
  let ?pre = "''std::thread u(other); ''"
  let ?mid = "''; std::thread v(more); ''"
  let ?post = "''; u.join();''"
  have a: "body ?f = ?pre @ ''std::thread t(worker, 10)'' @ ?mid @ ''t.detach()'' @ ?post"
    by (simp add: named_function_def)
  have b: "scan_reaches match_thread1 snd ?pre
      (''std::thread t(worker, 10)'' @ ?mid @ ''t.detach()'' @ ?post)"
    by code_simp
  have c: "?mid = [] \<or> \<not> isword (last ?mid)"
    by (simp add: isword_def)
  have d: "\<forall>ti \<in> set (threads_created ?f). thread_var_name ti \<noteq> ''t''"
    by (simp add: named_function_def)
  have m1: "regex_matches match_thread1 ?pre = [(''u'', ''other'', None)]"
    by code_simp
  have e: "\<forall>x \<in> set (regex_matches match_thread1 ?pre). fst x \<noteq> ''t''"
    unfolding m1 by simp
  have m1r: "length (regex_matches match_thread1 (?mid @ ''t.detach()'' @ ?post)) = 1"
    by code_simp
  have m2: "regex_matches match_thread2 (body ?f) = []"
    unfolding a by code_simp
  have m3: "regex_matches match_thread3 (body ?f) = []"
    unfolding a by code_simp
  have old: "threads_created ?f = []"
    by (simp add: named_function_def)
  have all: "detectThreadCreation_threads
      ''std::thread u(other); std::thread t(worker, 10); std::thread v(more); t.detach(); u.join();'' [] =
     [\<lparr>thread_var_name = ''u'', function_name = ''other'', arguments = [],
        detached = False, joinable = True\<rparr>,
      \<lparr>thread_var_name = ''t'', function_name = ''worker'', arguments = [''10''],
        detached = True, joinable = False\<rparr>,
      \<lparr>thread_var_name = ''v'', function_name = ''more'', arguments = [],
        detached = False, joinable = True\<rparr>]"
    by code_simp
  have 1: "\<exists>A B. threads_created (detectThreadCreation ?f) =
       A @ [\<lparr>thread_var_name = ''t'', function_name = ''worker'', arguments = [''10''],
             detached = True, joinable = False\<rparr>] @ B \<and>
     map thread_var_name A = [''u''] \<and> length B = 1"
    using thread_detach_recorded [OF a b c d e]
    unfolding m1 m1r m2 m3 old by simp
  have 2: "threads_created (detectThreadCreation ?f) =
     [\<lparr>thread_var_name = ''u'', function_name = ''other'', arguments = [],
        detached = False, joinable = True\<rparr>,
      \<lparr>thread_var_name = ''t'', function_name = ''worker'', arguments = [''10''],
        detached = True, joinable = False\<rparr>,
      \<lparr>thread_var_name = ''v'', function_name = ''more'', arguments = [],
        detached = False, joinable = True\<rparr>]"
    using all by (simp add: detectThreadCreation_def named_function_def)
  from 1 2 show ?thesis by blast
qed

end
